theory Spec2Isabelle
  imports Main
begin

section \<open>The online parser: data model\<close>

text \<open>
  The development follows the online parser (\<^verbatim>\<open>onlineParser\<close>, \<^verbatim>\<open>getToken\<close>,
  \<^verbatim>\<open>pushRule\<close>, \<^verbatim>\<open>popRule\<close>, \<^verbatim>\<open>advanceRule\<close>, \<^verbatim>\<open>isList\<close>,
  \<^verbatim>\<open>unsuccessful\<close>, \<^verbatim>\<open>lex\<close>). A JavaScript exception is a value of
  \<open>error\<close>; a function that can throw returns \<open>error + 'a\<close>, and one that
  contains a \<^verbatim>\<open>while\<close> loop returns \<open>(error + 'a) option\<close>, where \<open>None\<close> is
  a loop that never ends.
\<close>

datatype error = TypeError string

text \<open>A lexed token, \<^verbatim>\<open>{ kind, value }\<close>.\<close>

record token =
  tkind :: string
  tvalue :: string

text \<open>
  Modelled from the spec: the host's character stream (\<^verbatim>\<open>CharacterStream\<close> is
  imported from \<^verbatim>\<open>../types\<close>). It is the text of one line, a cursor into it
  and the indentation the host reports for the line (\<^verbatim>\<open>stream.indentation()\<close>).
\<close>

record stream =
  text_of :: string
  pos :: nat
  indentation :: nat

text \<open>
  The semantic annotations of one frame, \<^verbatim>\<open>(kind, name, type)\<close>, \<^verbatim>\<open>null\<close> being
  \<open>None\<close>. A Terminal's \<^verbatim>\<open>update(state, token)\<close> hook rewrites the annotations of
  the current frame and of the saved frames under it (the list is the current frame
  first, then \<^verbatim>\<open>prevState\<close>, \<^verbatim>\<open>prevState.prevState\<close>, ...).
\<close>

type_synonym annot = "string option \<times> string option \<times> string option"

text \<open>
  The elements of a rule, by the properties the parser reads:
  a string is a reference to a named rule (\<open>Ref\<close>; a rule name is a non-empty string);
  an object with \<^verbatim>\<open>match\<close>, an optional \<^verbatim>\<open>update\<close> and \<^verbatim>\<open>style\<close> is a \<open>Terminal\<close>;
  \<^verbatim>\<open>{ ofRule }\<close> is \<open>Opt\<close>; \<^verbatim>\<open>{ ofRule, isList: true, separator }\<close> is \<open>ListOf\<close>.
\<close>

datatype rule =
    Ref string
  | Terminal "token \<Rightarrow> bool" "(token \<Rightarrow> annot list \<Rightarrow> annot list) option" string
  | Opt rule
  | ListOf rule "rule option"

text \<open>\<^verbatim>\<open>e.ofRule\<close> and \<^verbatim>\<open>e.separator\<close>; \<open>None\<close> is \<^verbatim>\<open>undefined\<close>.\<close>

fun ofRule :: "rule \<Rightarrow> rule option" where
  "ofRule (Opt r) = Some r"
| "ofRule (ListOf r sep) = Some r"
| "ofRule (Ref n) = None"
| "ofRule (Terminal m u sty) = None"

fun separator :: "rule \<Rightarrow> rule option" where
  "separator (ListOf r sep) = sep"
| "separator (Opt r) = None"
| "separator (Ref n) = None"
| "separator (Terminal m u sty) = None"

text \<open>\<^verbatim>\<open>typeof e !== 'string' && e.isList === true\<close>.\<close>

fun isListElem :: "rule \<Rightarrow> bool" where
  "isListElem (ListOf r sep) = True"
| "isListElem (Opt r) = False"
| "isListElem (Ref n) = False"
| "isListElem (Terminal m u sty) = False"

text \<open>
  The values \<^verbatim>\<open>state.rule\<close> can hold. An entry of \<^verbatim>\<open>ParseRules\<close> is an array of
  elements (\<open>Seq\<close>) or a forking rule (\<open>Fork\<close>), a function of the token and the stream
  that yields an element or \<^verbatim>\<open>null\<close>; a forking rule declares its token parameter, so
  its \<^verbatim>\<open>.length\<close> is never 0. \<open>Inherited k\<close> is the member \<open>k\<close> of \<^verbatim>\<open>Object.prototype\<close>,
  which the lookup \<^verbatim>\<open>rules[k]\<close> gives for a name \<open>k\<close> that the table does not define
  (see \<open>lookupRule\<close> below).
\<close>

datatype parse_rule =
    Seq "rule list"
  | Fork "token \<Rightarrow> stream \<Rightarrow> rule option"
  | Inherited string

text \<open>A table of rules, by its own properties: \<open>rules n\<close> is the entry of the name \<open>n\<close>,
  \<open>None\<close> when the table defines no rule of that name.\<close>

type_synonym parse_rules = "string \<Rightarrow> parse_rule option"

text \<open>
  Modelled from the spec: the prototype of a table. \<^verbatim>\<open>SpecialParseRules\<close> is an object
  literal, and so is \<^verbatim>\<open>ParseRules\<close> (imported from \<^verbatim>\<open>./Rules\<close>); the prototype of an
  object literal is \<^verbatim>\<open>Object.prototype\<close>, whose members are the names below, each of
  them a truthy value (\<^verbatim>\<open>__proto__\<close> is \<^verbatim>\<open>Object.prototype\<close> itself, the others are
  functions).
\<close>

definition objectPrototype :: "string list" where
  "objectPrototype =
     [''constructor'', ''__defineGetter__'', ''__defineSetter__'', ''hasOwnProperty'',
      ''__lookupGetter__'', ''__lookupSetter__'', ''isPrototypeOf'', ''propertyIsEnumerable'',
      ''toString'', ''valueOf'', ''__proto__'', ''toLocaleString'']"

text \<open>
  \<^verbatim>\<open>rules[ruleKind]\<close>: the own property of the table if there is one, otherwise the
  member of \<^verbatim>\<open>Object.prototype\<close> of that name, otherwise \<^verbatim>\<open>undefined\<close> (\<open>None\<close>).
\<close>

definition lookupRule :: "parse_rules \<Rightarrow> string \<Rightarrow> parse_rule option" where
  "lookupRule rules ruleKind =
     (case rules ruleKind of
        Some r \<Rightarrow> Some r
      | None \<Rightarrow> if ruleKind \<in> set objectPrototype then Some (Inherited ruleKind) else None)"

text \<open>
  The members of \<^verbatim>\<open>Object.prototype\<close> that are functions with no declared parameter
  (their \<^verbatim>\<open>.length\<close> is 0), and what a member yields when the loop of \<^verbatim>\<open>getToken\<close>
  calls it as a forking rule, \<^verbatim>\<open>state.rule(token, stream)\<close>, on the state object:
  \<^verbatim>\<open>toString\<close> and \<^verbatim>\<open>toLocaleString\<close> yield the string \<^verbatim>\<open>[object Object]\<close>, which the
  loop takes for a rule name; \<^verbatim>\<open>constructor\<close> yields the token and \<^verbatim>\<open>valueOf\<close> the state,
  objects with no \<^verbatim>\<open>match\<close>, \<^verbatim>\<open>ofRule\<close> or \<^verbatim>\<open>separator\<close>, written here as a Terminal that
  matches no token; \<^verbatim>\<open>__defineGetter__\<close> and \<^verbatim>\<open>__defineSetter__\<close> throw, the stream being
  no function; the other members yield \<^verbatim>\<open>false\<close> or \<^verbatim>\<open>undefined\<close>.
\<close>

definition zeroLength :: "string list" where
  "zeroLength = [''toString'', ''valueOf'', ''toLocaleString'']"

definition inheritedCall :: "string \<Rightarrow> error + rule option" where
  "inheritedCall k =
     (if k \<in> set [''toString'', ''toLocaleString''] then Inr (Some (Ref ''[object Object]''))
      else if k \<in> set [''constructor'', ''valueOf''] then Inr (Some (Terminal (\<lambda>t. False) None []))
      else if k \<in> set [''__defineGetter__'', ''__defineSetter__'']
        then Inl (TypeError (''Object.prototype.'' @ k @ '': Expecting function''))
      else Inr None)"

text \<open>
  Modelled from the spec: the class \<^verbatim>\<open>State\<close> (imported from \<^verbatim>\<open>../types\<close>) with
  the fields the parser reads and writes, all of them own properties of the object.
  \<open>frame\<close> holds the fields of one \<^verbatim>\<open>State\<close> object but its \<^verbatim>\<open>prevState\<close> link;
  \<open>state\<close> adds the link as the list of the saved objects, nearest first:
  \<open>[]\<close> is \<^verbatim>\<open>prevState === null\<close>, and for \<open>p # ps\<close> the object \<^verbatim>\<open>state.prevState\<close>
  has the fields \<open>p\<close> and the link \<open>ps\<close>.
\<close>

record frame =
  kind :: "string option"
  name :: "string option"
  type :: "string option"
  rule :: "parse_rule option"
  step :: nat
  needsSeperator :: bool
  needsAdvance :: bool
  indentLevel :: nat
  levels :: "nat list option"

record state = frame +
  prevState :: "frame list"

text \<open>
  Modelled from the spec: \<^verbatim>\<open>State.clone()\<close>, a full copy of the object. The copy's
  fields are \<open>clone state\<close>; its \<^verbatim>\<open>prevState\<close> link is the link of \<open>state\<close>.
\<close>

definition clone :: "state \<Rightarrow> frame" where
  "clone state = \<lparr> kind = kind state, name = name state, type = type state,
     rule = rule state, step = step state, needsSeperator = needsSeperator state,
     needsAdvance = needsAdvance state, indentLevel = indentLevel state,
     levels = levels state \<rparr>"

section \<open>The rule stack\<close>

text \<open>\<^verbatim>\<open>pushRule(rules, state, ruleKind)\<close>.\<close>

definition pushRule :: "parse_rules \<Rightarrow> state \<Rightarrow> string \<Rightarrow> error + state" where
  "pushRule rules state ruleKind =
     (case lookupRule rules ruleKind of
        None \<Rightarrow> Inl (TypeError (''Unknown rule: '' @ ruleKind))
      | Some r \<Rightarrow>
          Inr (state\<lparr> prevState := clone state # prevState state,
                      kind := Some ruleKind,
                      name := None,
                      type := None,
                      rule := Some r,
                      step := 0,
                      needsSeperator := False \<rparr>))"

text \<open>\<^verbatim>\<open>popRule(state)\<close>.\<close>

definition popRule :: "state \<Rightarrow> state" where
  "popRule state =
     (case prevState state of
        [] \<Rightarrow> state
      | p # ps \<Rightarrow>
          state\<lparr> kind := kind p,
                 name := name p,
                 type := type p,
                 rule := rule p,
                 step := step p,
                 needsSeperator := needsSeperator p,
                 prevState := ps \<rparr>)"

text \<open>
  \<^verbatim>\<open>isList(state)\<close>. Reading \<^verbatim>\<open>.isList\<close> of \<^verbatim>\<open>state.rule[state.step]\<close> throws when
  the rule is an array and the step is not an index of it.
\<close>

definition isList :: "state \<Rightarrow> error + bool" where
  "isList state =
     (case rule state of
        Some (Seq es) \<Rightarrow>
          if step state < length es then Inr (isListElem (es ! step state))
          else Inl (TypeError ''Cannot read properties of undefined (reading isList)'')
      | Some (Fork f) \<Rightarrow> Inr False
      | Some (Inherited k) \<Rightarrow> Inr False
      | None \<Rightarrow> Inr False)"

text \<open>The element \<^verbatim>\<open>state.rule[state.step]\<close> of an array rule, \<open>None\<close> out of range.\<close>

definition current :: "state \<Rightarrow> rule option" where
  "current state =
     (case rule state of
        Some (Seq es) \<Rightarrow> if step state < length es then Some (es ! step state) else None
      | Some (Fork f) \<Rightarrow> None
      | Some (Inherited k) \<Rightarrow> None
      | None \<Rightarrow> None)"

text \<open>
  The loop condition of \<^verbatim>\<open>advanceRule\<close>:
  \<^verbatim>\<open>state.rule && !(Array.isArray(state.rule) && state.step < state.rule.length)\<close>.
\<close>

definition completed :: "state \<Rightarrow> bool" where
  "completed state =
     (case rule state of
        None \<Rightarrow> False
      | Some (Seq es) \<Rightarrow> \<not> step state < length es
      | Some (Fork f) \<Rightarrow> True
      | Some (Inherited k) \<Rightarrow> True)"

text \<open>
  The body of the \<^verbatim>\<open>while\<close> loop of \<^verbatim>\<open>advanceRule\<close>: pop the completed rule,
  then let a List parent repeat (toggling its separator flag when it declares a
  separator) and advance any other parent.
\<close>

definition popAdvance :: "state \<Rightarrow> error + state" where
  "popAdvance state0 =
     (let state = popRule state0 in
      if rule state \<noteq> None then
        (case isList state of
           Inl e \<Rightarrow> Inl e
         | Inr b \<Rightarrow>
             if b then
               (if Option.bind (current state) separator \<noteq> None
                then Inr (state\<lparr> needsSeperator := \<not> needsSeperator state \<rparr>)
                else Inr state)
             else Inr (state\<lparr> needsSeperator := False, step := step state + 1 \<rparr>))
      else Inr state)"

text \<open>The \<^verbatim>\<open>while\<close> loop of \<^verbatim>\<open>advanceRule\<close>.\<close>

partial_function (option) advanceLoop :: "state \<Rightarrow> (error + state) option" where
  "advanceLoop state =
     (if completed state then
        (case popAdvance state of
           Inl e \<Rightarrow> Some (Inl e)
         | Inr state' \<Rightarrow> advanceLoop state')
      else Some (Inr state))"

text \<open>\<^verbatim>\<open>advanceRule(state, successful)\<close>.\<close>

definition advanceRule :: "state \<Rightarrow> bool \<Rightarrow> (error + state) option" where
  "advanceRule state successful =
     (let advance = (\<lambda>state. advanceLoop (state\<lparr> needsSeperator := False, step := step state + 1 \<rparr>)) in
      case isList state of
        Inl e \<Rightarrow> Some (Inl e)
      | Inr b \<Rightarrow>
          if b then
            (case Option.bind (current state) separator of
               Some sep \<Rightarrow>
                 (let state = state\<lparr> needsSeperator := \<not> needsSeperator state \<rparr> in
                  if \<not> needsSeperator state \<and> ofRule sep \<noteq> None then Some (Inr state)
                  else if successful then Some (Inr state)
                  else advance state)
             | None \<Rightarrow>
                 if successful then Some (Inr state) else advance state)
          else advance state)"

text \<open>
  The \<^verbatim>\<open>while\<close> loop of \<^verbatim>\<open>unsuccessful\<close>. Reading \<^verbatim>\<open>.ofRule\<close> of
  \<^verbatim>\<open>state.rule[state.step]\<close> throws when the rule is an array and the step is not an
  index of it.
\<close>

partial_function (option) unwind :: "state \<Rightarrow> (error + state) option" where
  "unwind state =
     (case rule state of
        None \<Rightarrow> Some (Inr state)
      | Some (Fork f) \<Rightarrow> unwind (popRule state)
      | Some (Inherited k) \<Rightarrow> unwind (popRule state)
      | Some (Seq es) \<Rightarrow>
          if step state < length es then
            (if ofRule (es ! step state) \<noteq> None then Some (Inr state)
             else unwind (popRule state))
          else Some (Inl (TypeError ''Cannot read properties of undefined (reading ofRule)'')))"

text \<open>\<^verbatim>\<open>unsuccessful(state)\<close>.\<close>

definition unsuccessful :: "state \<Rightarrow> (error + state) option" where
  "unsuccessful state =
     (case unwind state of
        None \<Rightarrow> None
      | Some (Inl e) \<Rightarrow> Some (Inl e)
      | Some (Inr state) \<Rightarrow>
          if rule state \<noteq> None then advanceRule state False else Some (Inr state))"

section \<open>The stream and the lexer\<close>

text \<open>
  Modelled from the spec: the stream's pattern-based consumption. A pattern (a regular
  expression anchored at the cursor) is the function that gives, for the text from the
  cursor on, the length of its match there, or \<open>None\<close> when it does not match.
  \<^verbatim>\<open>stream.match(pattern)\<close> returns the matched text and moves the cursor past it. A
  match can be empty, as the match of \<^verbatim>\<open>/^a*/\<close> is on a text that does not begin with
  \<^verbatim>\<open>a\<close>: the result is then still a match (in JavaScript, an array), of length 0.
\<close>

type_synonym pattern = "string \<Rightarrow> nat option"

definition rest :: "stream \<Rightarrow> string" where
  "rest stream = drop (pos stream) (text_of stream)"

definition smatch :: "pattern \<Rightarrow> stream \<Rightarrow> string option \<times> stream" where
  "smatch pattern stream =
     (case pattern (rest stream) of
        None \<Rightarrow> (None, stream)
      | Some n \<Rightarrow>
          (let m = take n (rest stream)
           in (Some m, stream\<lparr> pos := pos stream + length m \<rparr>)))"

text \<open>\<^verbatim>\<open>stream.sol()\<close>.\<close>

definition sol :: "stream \<Rightarrow> bool" where
  "sol stream = (pos stream = 0)"

text \<open>
  The pattern \<^verbatim>\<open>/\\S+/\<close> at the cursor: the longest run of characters that are not
  white space (the white space characters below code 256).
\<close>

definition isSpace :: "char \<Rightarrow> bool" where
  "isSpace c = (c \<in> set [CHR 0x09, CHR 0x0A, CHR 0x0B, CHR 0x0C, CHR 0x0D, CHR 0x20, CHR 0xA0])"

definition nonSpaces :: pattern where
  "nonSpaces s =
     (let n = length (takeWhile (\<lambda>c. \<not> isSpace c) s) in if n = 0 then None else Some n)"

text \<open>
  \<^verbatim>\<open>lex(lexRules, stream)\<close>. \<^verbatim>\<open>LexRules\<close> is the list of its entries in the order of
  \<^verbatim>\<open>Object.keys\<close>.
\<close>

fun lex :: "(string \<times> pattern) list \<Rightarrow> stream \<Rightarrow> token option \<times> stream" where
  "lex [] stream = (None, stream)"
| "lex ((k, p) # kinds) stream =
     (case smatch p stream of
        (Some m, stream') \<Rightarrow> (Some \<lparr> tkind = k, tvalue = m \<rparr>, stream')
      | (None, stream') \<Rightarrow> lex kinds stream')"

section \<open>The token step driver\<close>

text \<open>
  \<^verbatim>\<open>ParserOptions\<close>; \<open>tabSize\<close> is \<^verbatim>\<open>editorConfig.tabSize\<close>, \<open>None\<close> when it is not
  set. \<^verbatim>\<open>eatWhitespace\<close> returns whether it consumed, and the stream after it.
\<close>

record options =
  eatWhitespace :: "stream \<Rightarrow> bool \<times> stream"
  lexRules :: "(string \<times> pattern) list"
  parseRules :: parse_rules
  tabSize :: "nat option"

text \<open>\<^verbatim>\<open>SpecialParseRules\<close>.\<close>

definition SpecialParseRules :: parse_rules where
  "SpecialParseRules = [''Invalid'' \<mapsto> Seq [], ''Comment'' \<mapsto> Seq []]"

text \<open>
  Modelled from the spec: \<^verbatim>\<open>new State()\<close>, the fresh state before the root rule is
  pushed, and \<^verbatim>\<open>startState()\<close> of the parser.
\<close>

definition initialState :: state where
  "initialState = \<lparr> kind = None, name = None, type = None, rule = None, step = 0,
     needsSeperator = False, needsAdvance = False, indentLevel = 0, levels = None,
     prevState = [] \<rparr>"

definition startState :: "options \<Rightarrow> error + state" where
  "startState opts = pushRule (parseRules opts) initialState ''Document''"

text \<open>Lines 75 to 80 of \<^verbatim>\<open>getToken\<close>: restore the state after an empty rule
  (\<^verbatim>\<open>state.rule && state.rule.length === 0\<close>), or perform the advance a Terminal
  deferred.\<close>

definition emptyRule :: "state \<Rightarrow> bool" where
  "emptyRule state =
     (case rule state of
        Some (Seq es) \<Rightarrow> es = []
      | Some (Inherited k) \<Rightarrow> k \<in> set zeroLength
      | _ \<Rightarrow> False)"

definition restore :: "state \<Rightarrow> (error + state) option" where
  "restore state =
     (if emptyRule state then Some (Inr (popRule state))
      else if needsAdvance state then advanceRule (state\<lparr> needsAdvance := False \<rparr>) True
      else Some (Inr state))"

text \<open>Lines 83 to 86: remember the indentation at the start of a line.\<close>

definition rememberIndent :: "options \<Rightarrow> stream \<Rightarrow> state \<Rightarrow> state" where
  "rememberIndent opts stream state =
     (if sol stream then
        (let tab = (case tabSize opts of None \<Rightarrow> 2 | Some t \<Rightarrow> if t = 0 then 2 else t)
         in state\<lparr> indentLevel := indentation stream div tab \<rparr>)
      else state)"

text \<open>Lines 113 to 131: the stack of indentation levels, for a Punctuation token.\<close>

definition startsWith :: "string \<Rightarrow> string \<Rightarrow> bool" where
  "startsWith cs s = (case s of [] \<Rightarrow> False | c # r \<Rightarrow> c \<in> set cs)"

definition adjustLevels :: "token \<Rightarrow> state \<Rightarrow> state" where
  "adjustLevels token state =
     (if tkind token = ''Punctuation'' then
        (if startsWith ''{(['' (tvalue token) then
           state\<lparr> levels := Some ((case levels state of None \<Rightarrow> [] | Some l \<Rightarrow> l) @ [indentLevel state + 1]) \<rparr>
         else if startsWith ''})]'' (tvalue token) then
           (let ls = butlast (case levels state of None \<Rightarrow> [] | Some l \<Rightarrow> l);
                state = state\<lparr> levels := Some ls \<rparr>
            in if indentLevel state \<noteq> 0 \<and> length ls > 0 \<and> last ls < indentLevel state
               then state\<lparr> indentLevel := last ls \<rparr>
               else state)
         else state)
      else state)"

text \<open>
  Lines 136 to 141: the element at the current step; for a function, what it yields
  at step 0 and \<^verbatim>\<open>null\<close> at any other step. \<^verbatim>\<open>Object.prototype\<close> (the member
  \<^verbatim>\<open>__proto__\<close>) is no function and has no element at any step.
\<close>

definition element :: "token \<Rightarrow> stream \<Rightarrow> state \<Rightarrow> error + rule option" where
  "element token stream state =
     (case rule state of
        Some (Fork f) \<Rightarrow> Inr (if step state = 0 then f token stream else None)
      | Some (Inherited k) \<Rightarrow>
          if k \<noteq> ''__proto__'' \<and> step state = 0 then inheritedCall k else Inr None
      | Some (Seq es) \<Rightarrow> Inr (if step state < length es then Some (es ! step state) else None)
      | None \<Rightarrow> Inr None)"

text \<open>
  Lines 136 to 152: the expected element, which is the element at the current step,
  replaced by its separator when one is pending, then unwrapped from an Optional or a
  List.
\<close>

definition expected :: "token \<Rightarrow> stream \<Rightarrow> state \<Rightarrow> error + rule option" where
  "expected token stream state =
     (case element token stream state of
        Inl err \<Rightarrow> Inl err
      | Inr e \<Rightarrow>
          (let e = (if needsSeperator state then Option.bind e separator else e)
           in Inr (case e of
                     None \<Rightarrow> None
                   | Some x \<Rightarrow> (case ofRule x of Some r \<Rightarrow> Some r | None \<Rightarrow> Some x))))"

text \<open>
  \<^verbatim>\<open>expected.update(state, token)\<close>: the hook rewrites the annotations of the frames;
  nothing else of the state changes.
\<close>

definition annotOf :: "'a frame_scheme \<Rightarrow> annot" where
  "annotOf f = (kind f, name f, type f)"

definition setAnnot :: "annot \<Rightarrow> 'a frame_scheme \<Rightarrow> 'a frame_scheme" where
  "setAnnot a f = f\<lparr> kind := fst a, name := fst (snd a), type := snd (snd a) \<rparr>"

fun setAnnots :: "annot list \<Rightarrow> frame list \<Rightarrow> frame list" where
  "setAnnots (a # as) (f # fs) = setAnnot a f # setAnnots as fs"
| "setAnnots [] fs = fs"
| "setAnnots as [] = []"

definition runUpdate :: "(token \<Rightarrow> annot list \<Rightarrow> annot list) option \<Rightarrow> token \<Rightarrow> state \<Rightarrow> state" where
  "runUpdate update token state =
     (case update of
        None \<Rightarrow> state
      | Some u \<Rightarrow>
          (case u token (annotOf state # map annotOf (prevState state)) of
             [] \<Rightarrow> state
           | a # as \<Rightarrow> (setAnnot a state)\<lparr> prevState := setAnnots as (prevState state) \<rparr>))"

text \<open>
  One iteration of the \<^verbatim>\<open>while (state.rule)\<close> loop of \<^verbatim>\<open>getToken\<close> (lines 134 to
  178): either \<^verbatim>\<open>getToken\<close> returns a style, or the loop goes on.
\<close>

datatype iteration = Return string state | Again state

definition matchStep :: "parse_rules \<Rightarrow> token \<Rightarrow> stream \<Rightarrow> state \<Rightarrow> (error + iteration) option" where
  "matchStep rules token stream state =
     (let failed = (case unsuccessful state of
                      None \<Rightarrow> None
                    | Some (Inl e) \<Rightarrow> Some (Inl e)
                    | Some (Inr state') \<Rightarrow> Some (Inr (Again state')))
      in case expected token stream state of
           Inl e \<Rightarrow> Some (Inl e)
         | Inr (Some (Ref n)) \<Rightarrow>
             (case pushRule rules state n of
                Inl e \<Rightarrow> Some (Inl e)
              | Inr state' \<Rightarrow> Some (Inr (Again state')))
         | Inr (Some (Terminal match update style)) \<Rightarrow>
             if match token then
               (let state = runUpdate update token state in
                if tkind token = ''Punctuation'' then
                  (case advanceRule state True of
                     None \<Rightarrow> None
                   | Some (Inl e) \<Rightarrow> Some (Inl e)
                   | Some (Inr state') \<Rightarrow> Some (Inr (Return style state')))
                else Some (Inr (Return style (state\<lparr> needsAdvance := True \<rparr>))))
             else failed
         | Inr (Some (Opt r)) \<Rightarrow> failed
         | Inr (Some (ListOf r sep)) \<Rightarrow> failed
         | Inr None \<Rightarrow> failed)"

text \<open>
  The \<^verbatim>\<open>while (state.rule)\<close> loop: \<open>Some style\<close> when a Terminal matched, \<open>None\<close>
  when the loop ended with no rule left.
\<close>

partial_function (option) matchLoop ::
  "parse_rules \<Rightarrow> token \<Rightarrow> stream \<Rightarrow> state \<Rightarrow> (error + string option \<times> state) option" where
  "matchLoop rules token stream state =
     (if rule state = None then Some (Inr (None, state))
      else
        (case matchStep rules token stream state of
           None \<Rightarrow> None
         | Some (Inl e) \<Rightarrow> Some (Inl e)
         | Some (Inr (Return style state')) \<Rightarrow> Some (Inr (Some style, state'))
         | Some (Inr (Again state')) \<Rightarrow> matchLoop rules token stream state'))"

text \<open>
  The part of \<^verbatim>\<open>getToken\<close> from line 109 on, for a token that is not a Comment:
  snapshot, levels, the loop, and the recovery when no rule is left.
\<close>

definition parseToken ::
  "options \<Rightarrow> token \<Rightarrow> stream \<Rightarrow> state \<Rightarrow> (error + string \<times> stream \<times> state) option" where
  "parseToken opts token stream state =
     (let backupState = state in
      case matchLoop (parseRules opts) token stream (adjustLevels token state) of
        None \<Rightarrow> None
      | Some (Inl e) \<Rightarrow> Some (Inl e)
      | Some (Inr (Some style, state')) \<Rightarrow> Some (Inr (style, stream, state'))
      | Some (Inr (None, state')) \<Rightarrow>
          (case pushRule SpecialParseRules backupState ''Invalid'' of
             Inl e \<Rightarrow> Some (Inl e)
           | Inr state'' \<Rightarrow> Some (Inr (''invalidchar'', stream, state''))))"

text \<open>
  The part of \<^verbatim>\<open>getToken\<close> from line 82 on: the indentation, the white space, the
  lexer, the sentinels of an invalid span and of a comment, and the grammar.
\<close>

definition scanToken ::
  "options \<Rightarrow> stream \<Rightarrow> state \<Rightarrow> (error + string \<times> stream \<times> state) option" where
  "scanToken opts stream state =
     (let state = rememberIndent opts stream state in
      case eatWhitespace opts stream of
        (True, stream) \<Rightarrow> Some (Inr (''ws'', stream, state))
      | (False, stream) \<Rightarrow>
          (case lex (lexRules opts) stream of
             (None, stream) \<Rightarrow>
               (case pushRule SpecialParseRules state ''Invalid'' of
                  Inl e \<Rightarrow> Some (Inl e)
                | Inr state' \<Rightarrow>
                    Some (Inr (''invalidchar'', snd (smatch nonSpaces stream), state')))
           | (Some token, stream) \<Rightarrow>
               if tkind token = ''Comment'' then
                 (case pushRule SpecialParseRules state ''Comment'' of
                    Inl e \<Rightarrow> Some (Inl e)
                  | Inr state' \<Rightarrow> Some (Inr (''comment'', stream, state')))
               else parseToken opts token stream state))"

text \<open>\<^verbatim>\<open>getToken(stream, state, options)\<close>: the style, and the stream and the state
  as the call leaves them.\<close>

definition getToken ::
  "options \<Rightarrow> stream \<Rightarrow> state \<Rightarrow> (error + string \<times> stream \<times> state) option" where
  "getToken opts stream state =
     (case restore state of
        None \<Rightarrow> None
      | Some (Inl e) \<Rightarrow> Some (Inl e)
      | Some (Inr state) \<Rightarrow> scanToken opts stream state)"

text \<open>The equations of the three loops, for evaluation.\<close>

declare unwind.simps [code] advanceLoop.simps [code] matchLoop.simps [code]

section \<open>Specification helpers and the example grammar\<close>

text \<open>
  The two ways the loop of \<^verbatim>\<open>unsuccessful\<close> treats a state: it stops on a state with
  no rule or with an Optional or List element at its step, and it pops a state that
  has a rule, an element at its step (when the rule is an array) and no
  \<^verbatim>\<open>ofRule\<close> there.
\<close>

definition stops :: "state \<Rightarrow> bool" where
  "stops t = (rule t = None \<or> Option.bind (current t) ofRule \<noteq> None)"

definition popsOn :: "state \<Rightarrow> bool" where
  "popsOn t = (rule t \<noteq> None \<and> Option.bind (current t) ofRule = None \<and>
      (\<forall>es. rule t = Some (Seq es) \<longrightarrow> step t < length es))"

text \<open>
  The loop of \<^verbatim>\<open>advanceRule\<close> unrolled: the state after \<open>n\<close> iterations of its body
  (each pops the completed rule and lets the parent repeat or advance), or the error
  that one of them throws.
\<close>

fun bubble :: "nat \<Rightarrow> state \<Rightarrow> error + state" where
  "bubble 0 state = Inr state"
| "bubble (Suc n) state =
     (case popAdvance state of Inl e \<Rightarrow> Inl e | Inr state' \<Rightarrow> bubble n state')"

text \<open>
  The loop of \<^verbatim>\<open>getToken\<close> unrolled: the state at the start of iteration \<open>n\<close>, when
  each of the \<open>n\<close> iterations before it went on to the next (it pushed a rule, or the
  match failed and \<^verbatim>\<open>unsuccessful\<close> left a rule).
\<close>

fun iterations :: "nat \<Rightarrow> parse_rules \<Rightarrow> token \<Rightarrow> stream \<Rightarrow> state \<Rightarrow> state option" where
  "iterations 0 rules token stream state = Some state"
| "iterations (Suc n) rules token stream state =
     (if rule state = None then None
      else case matchStep rules token stream state of
             Some (Inr (Again state')) \<Rightarrow> iterations n rules token stream state'
           | _ \<Rightarrow> None)"

text \<open>
  The lexer as the specification words it: the first pattern, in table order, that
  consumes a non-empty prefix wins.
\<close>

fun lexSpec :: "(string \<times> pattern) list \<Rightarrow> stream \<Rightarrow> token option \<times> stream" where
  "lexSpec [] stream = (None, stream)"
| "lexSpec ((k, p) # kinds) stream =
     (case p (rest stream) of
        None \<Rightarrow> lexSpec kinds stream
      | Some n \<Rightarrow>
          if take n (rest stream) \<noteq> []
          then (Some \<lparr> tkind = k, tvalue = take n (rest stream) \<rparr>,
                stream\<lparr> pos := pos stream + length (take n (rest stream)) \<rparr>)
          else lexSpec kinds stream)"

text \<open>
  The example of the specification: \<^verbatim>\<open>Document = ["{", List(Field, separator=","), "}"]\<close>
  with a Field that is one Name, whose \<^verbatim>\<open>update\<close> hook stores the name.
\<close>

definition punct :: "string \<Rightarrow> rule" where
  "punct v = Terminal (\<lambda>t. tkind t = ''Punctuation'' \<and> tvalue t = v) None ''punctuation''"

definition nameT :: rule where
  "nameT = Terminal (\<lambda>t. tkind t = ''Name'')
     (Some (\<lambda>t as. case as of [] \<Rightarrow> [] | (k, n, ty) # r \<Rightarrow> (k, Some (tvalue t), ty) # r))
     ''property''"

definition exampleRules :: parse_rules where
  "exampleRules =
     [''Document'' \<mapsto> Seq [punct ''{'', ListOf (Ref ''Field'') (Some (punct '','')), punct ''}''],
      ''Field'' \<mapsto> Seq [nameT]]"

definition isLetter :: "char \<Rightarrow> bool" where
  "isLetter c = (c \<in> set ''abcdefghijklmnopqrstuvwxyz'')"

definition namePattern :: pattern where
  "namePattern s = (let n = length (takeWhile isLetter s) in if n = 0 then None else Some n)"

definition punctPattern :: pattern where
  "punctPattern s =
     (case s of [] \<Rightarrow> None | c # r \<Rightarrow> if c \<in> set ''{}[]()@,'' then Some 1 else None)"

definition commentPattern :: pattern where
  "commentPattern s =
     (case s of [] \<Rightarrow> None | c # r \<Rightarrow> if c = CHR ''#'' then Some (length s) else None)"

text \<open>The characters the \<^verbatim>\<open>eatWhitespace\<close> of the example consumes: space, tab, line
  feed, carriage return and the no-break space.\<close>

definition isIgnored :: "char \<Rightarrow> bool" where
  "isIgnored c = (c \<in> set [CHR 0x20, CHR 0x09, CHR 0x0A, CHR 0x0D, CHR 0xA0])"

definition eatSpaces :: "stream \<Rightarrow> bool \<times> stream" where
  "eatSpaces stream =
     (let n = length (takeWhile isIgnored (rest stream))
      in (n \<noteq> 0, stream\<lparr> pos := pos stream + n \<rparr>))"

definition exampleOptions :: options where
  "exampleOptions = \<lparr> eatWhitespace = eatSpaces,
     lexRules = [(''Punctuation'', punctPattern), (''Name'', namePattern),
                 (''Comment'', commentPattern)],
     parseRules = exampleRules, tabSize = None \<rparr>"

definition streamOf :: "string \<Rightarrow> stream" where
  "streamOf s = \<lparr> text_of = s, pos = 0, indentation = 0 \<rparr>"

text \<open>The start state of the example, and the states of its Document and Field frames.\<close>

definition documentState :: state where
  "documentState = initialState\<lparr> prevState := [clone initialState], kind := Some ''Document'',
     rule := exampleRules ''Document'' \<rparr>"

definition documentAt :: "nat \<Rightarrow> bool \<Rightarrow> state" where
  "documentAt i sep = documentState\<lparr> step := i, needsSeperator := sep \<rparr>"

definition fieldAt :: "nat \<Rightarrow> state" where
  "fieldAt i = (documentAt 1 False)\<lparr> prevState := clone (documentAt 1 False) # prevState documentState,
     kind := Some ''Field'', rule := exampleRules ''Field'', step := i \<rparr>"

text \<open>
  A variant of the example in which a field is a name followed by a List of \<^verbatim>\<open>@\<close>
  marks, and the state of its Field frame at that List, under the Document frame.
\<close>

definition markRules :: parse_rules where
  "markRules = exampleRules(''Field'' \<mapsto> Seq [nameT, ListOf (punct ''@'') None])"

definition marksAt :: state where
  "marksAt = (fieldAt 1)\<lparr> rule := markRules ''Field'' \<rparr>"

text \<open>
  The states of the example on the text \<^verbatim>\<open>{name}\<close>: after the opening brace, and the
  Field frame pushed on a state.
\<close>

definition openState :: state where
  "openState = (documentAt 1 False)\<lparr> levels := Some [1] \<rparr>"

definition fieldOn :: "state \<Rightarrow> state" where
  "fieldOn state = state\<lparr> prevState := clone state # prevState state, kind := Some ''Field'',
     name := None, type := None, rule := exampleRules ''Field'', step := 0,
     needsSeperator := False \<rparr>"

text \<open>The Invalid sentinel pushed on a state.\<close>

definition invalidOn :: "state \<Rightarrow> state" where
  "invalidOn state = state\<lparr> prevState := clone state # prevState state, kind := Some ''Invalid'',
     name := None, type := None, rule := Some (Seq []), step := 0, needsSeperator := False \<rparr>"

text \<open>Two patterns for a lex table whose first entry matches the empty string:
  \<^verbatim>\<open>/^a*/\<close> and \<^verbatim>\<open>/^b/\<close>.\<close>

definition aStar :: pattern where
  "aStar s = Some (length (takeWhile (\<lambda>c. c = CHR ''a'') s))"

definition oneB :: pattern where
  "oneB s = (case s of [] \<Rightarrow> None | c # r \<Rightarrow> if c = CHR ''b'' then Some 1 else None)"

section \<open>Well-formed grammars and states\<close>

text \<open>The rule names an element mentions, and the tables that hold every name they
  mention: the names in the elements of their arrays and in whatever their forking
  rules yield are names the table defines. The entries of a table are arrays and
  forking rules; no entry is itself a member of \<^verbatim>\<open>Object.prototype\<close>.\<close>

fun names :: "rule \<Rightarrow> string set" where
  "names (Ref n) = {n}"
| "names (Terminal m u sty) = {}"
| "names (Opt r) = names r"
| "names (ListOf r sep) = names r \<union> (case sep of None \<Rightarrow> {} | Some s \<Rightarrow> names s)"

definition namesKnown :: "parse_rules \<Rightarrow> bool" where
  "namesKnown rules =
     (\<forall>n. case rules n of
            None \<Rightarrow> True
          | Some (Seq es) \<Rightarrow> (\<forall>e \<in> set es. \<forall>m \<in> names e. rules m \<noteq> None)
          | Some (Fork f) \<Rightarrow> (\<forall>t s e. f t s = Some e \<longrightarrow> (\<forall>m \<in> names e. rules m \<noteq> None))
          | Some (Inherited k) \<Rightarrow> False)"

text \<open>The rule names that the rule of a name refers to.\<close>

definition references :: "parse_rules \<Rightarrow> string \<Rightarrow> string set" where
  "references rules n =
     (case rules n of
        Some (Seq es) \<Rightarrow> (\<Union>e \<in> set es. names e)
      | Some (Fork f) \<Rightarrow> {m. \<exists>t s e. f t s = Some e \<and> m \<in> names e}
      | _ \<Rightarrow> {})"

text \<open>No entry of the table is the empty array.\<close>

definition noEmptyRule :: "parse_rules \<Rightarrow> bool" where
  "noEmptyRule rules = (\<forall>n. rules n \<noteq> Some (Seq []))"

text \<open>
  The states of a session: \<^verbatim>\<open>startState()\<close>, and every state a call of \<^verbatim>\<open>getToken\<close>
  on a state of the session leaves, on any stream.
\<close>

inductive reachable :: "options \<Rightarrow> state \<Rightarrow> bool" for opts :: options where
  start: "startState opts = Inr state \<Longrightarrow> reachable opts state"
| token: "reachable opts state \<Longrightarrow>
          getToken opts stream state = Some (Inr (style, stream', state')) \<Longrightarrow>
          reachable opts state'"

text \<open>
  The invariant of the states of a session. A frame is at a valid position when its
  step is an index of its rule (if the rule is an array); its rule is from the table
  or is the empty array of a sentinel. In a state, the last object of the
  \<^verbatim>\<open>prevState\<close> chain has no rule, every saved frame is at a valid position, and the
  current frame is at a valid position or is a sentinel with no advance pending.
\<close>

definition validPos :: "'a frame_scheme \<Rightarrow> bool" where
  "validPos f = (\<forall>es. rule f = Some (Seq es) \<longrightarrow> step f < length es)"

definition ruleOk :: "parse_rules \<Rightarrow> 'a frame_scheme \<Rightarrow> bool" where
  "ruleOk rules f = (\<forall>r. rule f = Some r \<longrightarrow> r = Seq [] \<or> (\<exists>n. rules n = Some r))"

definition chainOk :: "parse_rules \<Rightarrow> state \<Rightarrow> bool" where
  "chainOk rules state =
     (ruleOk rules state \<and>
      (\<forall>p \<in> set (prevState state). ruleOk rules p \<and> validPos p) \<and>
      rule (last (clone state # prevState state)) = None)"

definition safeInv :: "parse_rules \<Rightarrow> state \<Rightarrow> bool" where
  "safeInv rules state =
     (chainOk rules state \<and>
      (validPos state \<or> (rule state = Some (Seq []) \<and> \<not> needsAdvance state)))"

text \<open>A table in which every name is known, but one rule is the empty array.\<close>

definition emptyRules :: parse_rules where
  "emptyRules = [''Document'' \<mapsto> Seq [Ref ''Empty''], ''Empty'' \<mapsto> Seq []]"

definition emptyOptions :: options where
  "emptyOptions = exampleOptions\<lparr> parseRules := emptyRules \<rparr>"

definition emptyStart :: state where
  "emptyStart = initialState\<lparr> prevState := [clone initialState], kind := Some ''Document'',
     rule := emptyRules ''Document'' \<rparr>"

section \<open>A recursive grammar\<close>

text \<open>
  A recursive grammar: a selection set is a braced List of fields, and a field is a
  name with an optional selection set.
\<close>

definition nestedRules :: parse_rules where
  "nestedRules =
     [''Document'' \<mapsto> Seq [ListOf (Ref ''SelectionSet'') None],
      ''SelectionSet'' \<mapsto> Seq [punct ''{'', ListOf (Ref ''Field'') (Some (Opt (punct '',''))), punct ''}''],
      ''Field'' \<mapsto> Seq [nameT, Opt (Ref ''SelectionSet'')]]"

definition nestedStart :: state where
  "nestedStart = initialState\<lparr> prevState := [clone initialState], kind := Some ''Document'',
     rule := nestedRules ''Document'' \<rparr>"

definition selectionAt :: "nat \<Rightarrow> bool \<Rightarrow> state" where
  "selectionAt i sep = nestedStart\<lparr> prevState := clone nestedStart # prevState nestedStart,
     kind := Some ''SelectionSet'', rule := nestedRules ''SelectionSet'', step := i,
     needsSeperator := sep \<rparr>"

section \<open>The rule stack: \<^verbatim>\<open>pushRule\<close> and \<^verbatim>\<open>popRule\<close>\<close>

lemma emptyRule_iff:
  "emptyRule state \<longleftrightarrow>
     rule state = Some (Seq []) \<or> (\<exists>k. rule state = Some (Inherited k) \<and> k \<in> set zeroLength)"
  by (auto simp: emptyRule_def split: option.splits parse_rule.splits)

lemma emptyRule_simps [simp]:
  "rule state = Some (Seq es) \<Longrightarrow> emptyRule state \<longleftrightarrow> es = []"
  "rule state = Some (Fork f) \<Longrightarrow> \<not> emptyRule state"
  "rule state = None \<Longrightarrow> \<not> emptyRule state"
  "emptyRule (state\<lparr> needsAdvance := b \<rparr>) = emptyRule state"
  by (simp_all add: emptyRule_def)

lemma lookupRule_own [simp]: "rules n = Some r \<Longrightarrow> lookupRule rules n = Some r"
  by (simp add: lookupRule_def)

lemma pushRule_installs:
  "lookupRule rules n = Some r \<Longrightarrow>
     pushRule rules state n =
       Inr (state\<lparr> prevState := clone state # prevState state, kind := Some n, name := None,
                   type := None, rule := Some r, step := 0, needsSeperator := False \<rparr>)"
  by (simp add: pushRule_def)


text \<open>
  C6: for a known rule name, \<^verbatim>\<open>pushRule\<close> followed by \<^verbatim>\<open>popRule\<close> gives the state
  back, every field and the \<^verbatim>\<open>prevState\<close> link; \<^verbatim>\<open>indentLevel\<close>, \<^verbatim>\<open>levels\<close> and
  \<^verbatim>\<open>needsAdvance\<close> are the same in between too. \<^verbatim>\<open>popRule\<close> on a state with no saved
  frame changes nothing.
\<close>

theorem pushRule_popRule_restores:
  "(\<forall>r. rules n = Some r \<longrightarrow>
      (\<exists>s'. pushRule rules s n = Inr s' \<and> popRule s' = s \<and>
         indentLevel s' = indentLevel s \<and> levels s' = levels s \<and>
         needsAdvance s' = needsAdvance s)) \<and>
   (prevState s = [] \<longrightarrow> popRule s = s)"
  by (auto simp: pushRule_def popRule_def clone_def)

theorem pushRule_popRule_restores_witness:
  "(\<exists>s'. pushRule exampleRules (documentAt 1 True) ''Field'' = Inr s' \<and>
      popRule s' = documentAt 1 True) \<and> popRule initialState = initialState"
proof -
  have present: "exampleRules ''Field'' = Some (Seq [nameT])" by (simp add: exampleRules_def)
  from pushRule_popRule_restores[of exampleRules "''Field''" "documentAt 1 True"] present
  have "\<exists>s'. pushRule exampleRules (documentAt 1 True) ''Field'' = Inr s' \<and>
      popRule s' = documentAt 1 True" by blast
  moreover have "prevState initialState = []" by (simp add: initialState_def)
  with pushRule_popRule_restores[of exampleRules "''Field''" initialState]
  have "popRule initialState = initialState" by blast
  ultimately show ?thesis by simp
qed

section \<open>Step advancement\<close>

lemma current_Some:
  "current state = Some e \<longleftrightarrow>
     (\<exists>es. rule state = Some (Seq es) \<and> step state < length es \<and> es ! step state = e)"
  by (auto simp: current_def split: option.splits parse_rule.splits)

lemma isList_current: "current state = Some e \<Longrightarrow> isList state = Inr (isListElem e)"
  by (auto simp: current_Some isList_def)

lemma advanceRule_notList:
  "isList state = Inr False \<Longrightarrow>
     advanceRule state successful =
       advanceLoop (state\<lparr> needsSeperator := False, step := step state + 1 \<rparr>)"
  by (simp add: advanceRule_def)

lemma advanceLoop_done: "\<not> completed state \<Longrightarrow> advanceLoop state = Some (Inr state)"
  by (subst advanceLoop.simps) simp

lemma advanceLoop_completed:
  "completed state \<Longrightarrow> advanceLoop state =
     (case popAdvance state of Inl e \<Rightarrow> Some (Inl e) | Inr state' \<Rightarrow> advanceLoop state')"
  by (subst advanceLoop.simps) simp

lemma example_rules [simp]:
  "exampleRules ''Document'' =
     Some (Seq [punct ''{'', ListOf (Ref ''Field'') (Some (punct '','')), punct ''}''])"
  "exampleRules ''Field'' = Some (Seq [nameT])"
  by (simp_all add: exampleRules_def)

lemma documentAt_fields [simp]:
  "rule (documentAt i sep) = exampleRules ''Document''" "step (documentAt i sep) = i"
  "needsSeperator (documentAt i sep) = sep" "prevState (documentAt i sep) = [clone initialState]"
  "needsAdvance (documentAt i sep) = False"
  by (simp_all add: documentAt_def documentState_def initialState_def)

lemma fieldAt_fields [simp]:
  "rule (fieldAt i) = exampleRules ''Field''" "step (fieldAt i) = i"
  "needsSeperator (fieldAt i) = False"
  "prevState (fieldAt i) = [clone (documentAt 1 False), clone initialState]"
  "needsAdvance (fieldAt i) = False"
  by (simp_all add: fieldAt_def documentAt_def documentState_def initialState_def)

lemma popRule_fieldAt: "popRule (fieldAt i) = documentAt 1 False"
  by (simp add: popRule_def fieldAt_def documentAt_def documentState_def initialState_def clone_def)

lemma example_states [simp]:
  "rule marksAt = Some (Seq [nameT, ListOf (punct ''@'') None])" "step marksAt = 1"
  "needsSeperator marksAt = False"
  "prevState marksAt = [clone (documentAt 1 False), clone initialState]"
  by (simp_all add: marksAt_def markRules_def)

text \<open>The loop of \<^verbatim>\<open>advanceRule\<close> and its unrolling.\<close>

lemma advanceLoop_bubble:
  "\<forall>i<n. \<exists>u. bubble i t = Inr u \<and> completed u \<Longrightarrow>
     advanceLoop t = (case bubble n t of Inl e \<Rightarrow> Some (Inl e) | Inr u \<Rightarrow> advanceLoop u)"
proof (induction n arbitrary: t)
  case 0
  show ?case by simp
next
  case (Suc n)
  from Suc.prems have c: "completed t" by force
  show ?case
  proof (cases "popAdvance t")
    case (Inl e)
    with c show ?thesis by (simp add: advanceLoop_completed)
  next
    case (Inr s)
    have "\<forall>i<n. \<exists>u. bubble i s = Inr u \<and> completed u"
    proof (intro allI impI)
      fix i assume "i < n"
      then have "\<exists>u. bubble (Suc i) t = Inr u \<and> completed u" using Suc.prems by blast
      with Inr show "\<exists>u. bubble i s = Inr u \<and> completed u" by simp
    qed
    then have "advanceLoop s = (case bubble n s of Inl e \<Rightarrow> Some (Inl e) | Inr u \<Rightarrow> advanceLoop u)"
      by (rule Suc.IH)
    with c Inr show ?thesis by (simp add: advanceLoop_completed)
  qed
qed

lemma advanceLoop_unrolls:
  "advanceLoop t = Some r \<Longrightarrow>
     \<exists>n. bubble n t = r \<and> (\<forall>s'. r = Inr s' \<longrightarrow> \<not> completed s') \<and>
         (\<forall>i<n. \<exists>u. bubble i t = Inr u \<and> completed u)"
proof (induction rule: advanceLoop.raw_induct[rotated 1, consumes 1])
  case (1 loop t r)
  show ?case
  proof (cases "completed t")
    case False
    with 1(2) have "r = Inr t" by simp
    with False show ?thesis by (intro exI[of _ 0]) simp
  next
    case True
    show ?thesis
    proof (cases "popAdvance t")
      case (Inl e)
      with 1(2) True have "r = Inl e" by simp
      with Inl True show ?thesis by (intro exI[of _ 1]) simp
    next
      case (Inr s)
      with 1(2) True have "loop s = Some r" by simp
      from 1(1)[OF this] obtain n where
        n: "bubble n s = r" "\<forall>s'. r = Inr s' \<longrightarrow> \<not> completed s'"
           "\<forall>i<n. \<exists>u. bubble i s = Inr u \<and> completed u" by blast
      have "\<forall>i<Suc n. \<exists>u. bubble i t = Inr u \<and> completed u"
      proof (intro allI impI)
        fix i assume i: "i < Suc n"
        show "\<exists>u. bubble i t = Inr u \<and> completed u"
        proof (cases i)
          case 0
          with True show ?thesis by simp
        next
          case (Suc j)
          with i n(3) Inr show ?thesis by simp
        qed
      qed
      with n(1,2) Inr show ?thesis by (intro exI[of _ "Suc n"]) simp
    qed
  qed
qed

lemma advanceLoop_state:
  "advanceLoop t = Some (Inr s') \<longleftrightarrow>
     (\<exists>n. bubble n t = Inr s' \<and> \<not> completed s' \<and>
          (\<forall>i<n. \<exists>u. bubble i t = Inr u \<and> completed u))"
proof
  assume "advanceLoop t = Some (Inr s')"
  from advanceLoop_unrolls[OF this] show "\<exists>n. bubble n t = Inr s' \<and> \<not> completed s' \<and>
          (\<forall>i<n. \<exists>u. bubble i t = Inr u \<and> completed u)" by blast
next
  assume "\<exists>n. bubble n t = Inr s' \<and> \<not> completed s' \<and>
          (\<forall>i<n. \<exists>u. bubble i t = Inr u \<and> completed u)"
  then obtain n where n: "bubble n t = Inr s'" "\<not> completed s'"
    "\<forall>i<n. \<exists>u. bubble i t = Inr u \<and> completed u" by blast
  from advanceLoop_bubble[OF n(3)] n(1,2) show "advanceLoop t = Some (Inr s')"
    by (simp add: advanceLoop_done)
qed


text \<open>An iteration pops one frame; the state it leaves is the popped state, up to the
  separator flag and the step.\<close>

lemma popAdvance_pops:
  "popAdvance u = Inr u' \<Longrightarrow>
     prevState u' = tl (prevState u) \<and>
     (u' = popRule u \<or> u' = (popRule u)\<lparr> needsSeperator := \<not> needsSeperator (popRule u) \<rparr> \<or>
      u' = (popRule u)\<lparr> needsSeperator := False, step := step (popRule u) + 1 \<rparr>)"
  by (cases "prevState u")
     (auto simp: popAdvance_def popRule_def Let_def split: if_splits sum.splits)




lemma popAdvance_list:
  assumes "prevState state = p # ps" "rule p = Some (Seq es)" "step p < length es"
    "es ! step p = ListOf r (Some sep)"
  shows "popAdvance state = Inr ((popRule state)\<lparr> needsSeperator := \<not> needsSeperator p \<rparr>)"
  using assms by (simp add: popAdvance_def popRule_def isList_def current_def Let_def)

lemma popAdvance_other:
  assumes "prevState state = p # ps" "rule p = Some (Seq es)" "step p < length es"
    "\<not> isListElem (es ! step p)"
  shows "popAdvance state = Inr ((popRule state)\<lparr> needsSeperator := False, step := step p + 1 \<rparr>)"
  using assms by (simp add: popAdvance_def popRule_def isList_def current_def Let_def)

text \<open>
  C10: when the loop of \<^verbatim>\<open>advanceRule\<close> pops a completed frame and the parent it
  exposes is at a List step that declares a separator, the parent's separator flag is
  the negation of the flag the pop restored, its step is the restored step, and the
  loop ends there. A parent at a step that is not a List (or a parent whose rule is a
  function, a forking rule or an inherited one) has its flag cleared and its step
  incremented, and the loop goes on from that state. A parent at a List step with no separator is left as the pop restored it.
\<close>

theorem advanceLoop_parent_list:
  assumes "completed state" and "prevState state = p # ps"
  shows "(\<forall>es r sep. rule p = Some (Seq es) \<and> step p < length es \<and>
              es ! step p = ListOf r (Some sep) \<longrightarrow>
            advanceLoop state = Some (Inr ((popRule state)\<lparr> needsSeperator := \<not> needsSeperator p \<rparr>))
            \<and> step (popRule state) = step p)
       \<and> (\<forall>es. rule p = Some (Seq es) \<and> step p < length es \<and> \<not> isListElem (es ! step p) \<longrightarrow>
            advanceLoop state =
              advanceLoop ((popRule state)\<lparr> needsSeperator := False, step := step p + 1 \<rparr>))
       \<and> (\<forall>f. rule p = Some (Fork f) \<longrightarrow>
            advanceLoop state =
              advanceLoop ((popRule state)\<lparr> needsSeperator := False, step := step p + 1 \<rparr>))
       \<and> (\<forall>es r. rule p = Some (Seq es) \<and> step p < length es \<and> es ! step p = ListOf r None \<longrightarrow>
            advanceLoop state = Some (Inr (popRule state)))
       \<and> (\<forall>k. rule p = Some (Inherited k) \<longrightarrow>
            advanceLoop state =
              advanceLoop ((popRule state)\<lparr> needsSeperator := False, step := step p + 1 \<rparr>))"
proof (intro conjI allI impI)
  fix es r sep
  assume a: "rule p = Some (Seq es) \<and> step p < length es \<and> es ! step p = ListOf r (Some sep)"
  let ?s = "(popRule state)\<lparr> needsSeperator := \<not> needsSeperator p \<rparr>"
  from a assms have pa: "popAdvance state = Inr ?s" by (simp add: popAdvance_list)
  from a assms have "\<not> completed ?s" by (simp add: completed_def popRule_def)
  with pa assms show "advanceLoop state = Some (Inr ?s)"
    by (simp add: advanceLoop_completed advanceLoop_done)
  from assms show "step (popRule state) = step p" by (simp add: popRule_def)
next
  fix es
  assume a: "rule p = Some (Seq es) \<and> step p < length es \<and> \<not> isListElem (es ! step p)"
  from a assms
  have "popAdvance state = Inr ((popRule state)\<lparr> needsSeperator := False, step := step p + 1 \<rparr>)"
    by (simp add: popAdvance_other)
  with assms
  show "advanceLoop state = advanceLoop ((popRule state)\<lparr> needsSeperator := False, step := step p + 1 \<rparr>)"
    by (simp add: advanceLoop_completed)
next
  fix f
  assume a: "rule p = Some (Fork f)"
  from a assms
  have "popAdvance state = Inr ((popRule state)\<lparr> needsSeperator := False, step := step p + 1 \<rparr>)"
    by (simp add: popAdvance_def popRule_def isList_def Let_def)
  with assms
  show "advanceLoop state = advanceLoop ((popRule state)\<lparr> needsSeperator := False, step := step p + 1 \<rparr>)"
    by (simp add: advanceLoop_completed)
next
  fix es r
  assume a: "rule p = Some (Seq es) \<and> step p < length es \<and> es ! step p = ListOf r None"
  from a assms have pa: "popAdvance state = Inr (popRule state)"
    by (simp add: popAdvance_def popRule_def isList_def current_def Let_def)
  from a assms have "\<not> completed (popRule state)" by (simp add: completed_def popRule_def)
  with pa assms show "advanceLoop state = Some (Inr (popRule state))"
    by (simp add: advanceLoop_completed advanceLoop_done)
next
  fix k
  assume a: "rule p = Some (Inherited k)"
  from a assms
  have "popAdvance state = Inr ((popRule state)\<lparr> needsSeperator := False, step := step p + 1 \<rparr>)"
    by (simp add: popAdvance_def popRule_def isList_def Let_def)
  with assms
  show "advanceLoop state = advanceLoop ((popRule state)\<lparr> needsSeperator := False, step := step p + 1 \<rparr>)"
    by (simp add: advanceLoop_completed)
qed

theorem advanceLoop_parent_list_witness:
  "completed (fieldAt 1) \<and> advanceLoop (fieldAt 1) = Some (Inr (documentAt 1 True))"
proof -
  have c: "completed (fieldAt 1)" by (simp add: completed_def)
  have p: "prevState (fieldAt 1) = clone (documentAt 1 False) # [clone initialState]" by simp
  have r: "rule (clone (documentAt 1 False)) =
       Some (Seq [punct ''{'', ListOf (Ref ''Field'') (Some (punct '','')), punct ''}'']) \<and>
     step (clone (documentAt 1 False)) < length [punct ''{'', ListOf (Ref ''Field'') (Some (punct '','')), punct ''}''] \<and>
     [punct ''{'', ListOf (Ref ''Field'') (Some (punct '','')), punct ''}''] ! step (clone (documentAt 1 False))
       = ListOf (Ref ''Field'') (Some (punct '',''))"
    by (simp add: clone_def)
  have e: "(popRule (fieldAt 1))\<lparr> needsSeperator := \<not> needsSeperator (clone (documentAt 1 False)) \<rparr>
      = documentAt 1 True"
    by (simp add: popRule_fieldAt clone_def) (simp add: documentAt_def)
  from advanceLoop_parent_list[OF c p] r
  have "advanceLoop (fieldAt 1) =
      Some (Inr ((popRule (fieldAt 1))\<lparr> needsSeperator := \<not> needsSeperator (clone (documentAt 1 False)) \<rparr>))"
    by blast
  with c e show ?thesis by simp
qed

section \<open>Failure recovery\<close>

lemma unwind_stops: "stops t \<Longrightarrow> unwind t = Some (Inr t)"
  by (subst unwind.simps)
     (auto simp: stops_def current_def split: option.splits parse_rule.splits if_splits)

lemma unwind_pops: "popsOn t \<Longrightarrow> unwind t = unwind (popRule t)"
  by (subst unwind.simps)
     (auto simp: popsOn_def current_def split: option.splits parse_rule.splits)

lemma unwind_funpow:
  "\<forall>j<k. popsOn ((popRule ^^ j) t) \<Longrightarrow> unwind t = unwind ((popRule ^^ k) t)"
proof (induction k arbitrary: t)
  case 0
  show ?case by simp
next
  case (Suc k)
  from Suc.prems have p0: "popsOn t" by force
  have "\<forall>j<k. popsOn ((popRule ^^ j) (popRule t))"
  proof (intro allI impI)
    fix j assume "j < k"
    then have "popsOn ((popRule ^^ Suc j) t)" using Suc.prems by blast
    then show "popsOn ((popRule ^^ j) (popRule t))" by (simp add: funpow_swap1)
  qed
  then have "unwind (popRule t) = unwind ((popRule ^^ k) (popRule t))" by (rule Suc.IH)
  with p0 show ?case by (simp add: unwind_pops funpow_swap1)
qed

lemma unwind_result_aux:
  "unwind t = Some y \<Longrightarrow>
     (\<forall>s'. y = Inr s' \<longrightarrow>
        (\<exists>k. s' = (popRule ^^ k) t \<and> stops s' \<and> (\<forall>j<k. popsOn ((popRule ^^ j) t))))"
proof (induction rule: unwind.raw_induct[rotated 1, consumes 1])
  case (1 unw t y)
  show ?case
  proof (intro allI impI)
    fix s' assume y: "y = Inr s'"
    show "\<exists>k. s' = (popRule ^^ k) t \<and> stops s' \<and> (\<forall>j<k. popsOn ((popRule ^^ j) t))"
    proof (cases "stops t")
      case True
      with 1(2) y have "s' = t"
        by (auto simp: stops_def current_def split: option.splits parse_rule.splits if_splits)
      with True show ?thesis by (intro exI[of _ 0]) simp
    next
      case False
      with 1(2) y have po: "popsOn t" and u: "unw (popRule t) = Some (Inr s')"
        by (auto simp: stops_def popsOn_def current_def
            split: option.splits parse_rule.splits if_splits)
      from 1(1)[OF u, rule_format, OF refl] obtain k where
        k: "s' = (popRule ^^ k) (popRule t)" "stops s'"
           "\<forall>j<k. popsOn ((popRule ^^ j) (popRule t))" by blast
      have "\<forall>j<Suc k. popsOn ((popRule ^^ j) t)"
      proof (intro allI impI)
        fix j assume j: "j < Suc k"
        show "popsOn ((popRule ^^ j) t)"
        proof (cases j)
          case 0
          with po show ?thesis by simp
        next
          case (Suc i)
          with j k(3) have "popsOn ((popRule ^^ i) (popRule t))" by simp
          with Suc show ?thesis by (simp add: funpow_swap1)
        qed
      qed
      with k(1,2) show ?thesis by (intro exI[of _ "Suc k"]) (simp add: funpow_swap1)
    qed
  qed
qed

lemma unwind_result:
  "unwind t = Some (Inr s') \<Longrightarrow>
     \<exists>k. s' = (popRule ^^ k) t \<and> stops s' \<and> (\<forall>j<k. popsOn ((popRule ^^ j) t))"
  using unwind_result_aux by blast

lemma advanceRule_skip:
  assumes "current s = Some e" and "ofRule e \<noteq> None"
  shows "advanceRule s False =
     (if (\<exists>sp. separator e = Some sp \<and> ofRule sp \<noteq> None) \<and> needsSeperator s
      then Some (Inr (s\<lparr> needsSeperator := False \<rparr>))
      else advanceLoop (s\<lparr> needsSeperator := False, step := step s + 1 \<rparr>))"
  using assms isList_current[OF assms(1)]
  by (cases e) (auto simp: advanceRule_def Let_def split: option.splits)

text \<open>
  C4, as the claim states it, fails at a List whose separator is Optional and pending:
  in the recursive grammar, on the selection set at its List of fields with the
  separator pending, the loop of \<^verbatim>\<open>unsuccessful\<close> stops at once (the step is a List) and
  \<^verbatim>\<open>advanceRule(state, false)\<close> only clears the flag: the List is not advanced past, the
  frame stays at step 1.
\<close>

theorem unsuccessful_optional_separator_counterexample:
  "current (selectionAt 1 True) = Some (ListOf (Ref ''Field'') (Some (Opt (punct '','')))) \<and>
   unwind (selectionAt 1 True) = Some (Inr (selectionAt 1 True)) \<and>
   unsuccessful (selectionAt 1 True) = Some (Inr (selectionAt 1 False)) \<and>
   step (selectionAt 1 False) = step (selectionAt 1 True)"
proof -
  have c: "current (selectionAt 1 True) = Some (ListOf (Ref ''Field'') (Some (Opt (punct '',''))))"
    by (simp add: current_def selectionAt_def nestedRules_def)
  then have "stops (selectionAt 1 True)" by (simp add: stops_def)
  then have u: "unwind (selectionAt 1 True) = Some (Inr (selectionAt 1 True))"
    by (rule unwind_stops)
  have r: "rule (selectionAt 1 True) \<noteq> None" by (simp add: selectionAt_def nestedRules_def)
  have t: "(selectionAt 1 True)\<lparr> needsSeperator := False \<rparr> = selectionAt 1 False"
    by (simp add: selectionAt_def)
  have n: "needsSeperator (selectionAt 1 True)" by (simp add: selectionAt_def)
  from advanceRule_skip[OF c] n t
  have "advanceRule (selectionAt 1 True) False = Some (Inr (selectionAt 1 False))" by simp
  with u r have "unsuccessful (selectionAt 1 True) = Some (Inr (selectionAt 1 False))"
    by (simp add: unsuccessful_def)
  with c u show ?thesis by (simp add: selectionAt_def)
qed

text \<open>
  C4, amended: the loop of \<^verbatim>\<open>unsuccessful\<close> returns \<open>s'\<close> exactly when \<open>s'\<close> is the state
  after some number \<open>k\<close> of pops, \<open>s'\<close> has no rule or has an Optional or List element at
  its step, and every state before it had a rule and no such element. Then
  \<^verbatim>\<open>unsuccessful\<close> leaves a state without a rule as it is and otherwise calls
  \<^verbatim>\<open>advanceRule(state, false)\<close>: the element is advanced past (the separator flag is
  cleared, the step incremented, and the loop over completed rules runs), except at a
  List whose separator is Optional and pending, where only the flag is cleared and the
  List stays at its step. When the element is advanced past, \<^verbatim>\<open>unsuccessful\<close> returns the
  state \<open>s''\<close> exactly when \<open>s''\<close> is the state after some number of iterations of that
  loop, each on a state whose rule is completed, and the rule of \<open>s''\<close> is not completed.
  The stream is no argument of \<^verbatim>\<open>unsuccessful\<close>: it consumes no input.
\<close>

theorem unsuccessful_unwinds:
  "(unwind state = Some (Inr s') \<longleftrightarrow>
      (\<exists>k. s' = (popRule ^^ k) state \<and> stops s' \<and> (\<forall>j<k. popsOn ((popRule ^^ j) state))))
   \<and> (unwind state = Some (Inr s') \<longrightarrow>
        unsuccessful state = (if rule s' = None then Some (Inr s') else advanceRule s' False))
   \<and> (\<forall>e. unwind state = Some (Inr s') \<and> current s' = Some e \<and> ofRule e \<noteq> None \<longrightarrow>
        unsuccessful state =
          (if (\<exists>sp. separator e = Some sp \<and> ofRule sp \<noteq> None) \<and> needsSeperator s'
           then Some (Inr (s'\<lparr> needsSeperator := False \<rparr>))
           else advanceLoop (s'\<lparr> needsSeperator := False, step := step s' + 1 \<rparr>)))
   \<and> (\<forall>e s''. unwind state = Some (Inr s') \<and> current s' = Some e \<and> ofRule e \<noteq> None \<and>
          \<not> ((\<exists>sp. separator e = Some sp \<and> ofRule sp \<noteq> None) \<and> needsSeperator s') \<longrightarrow>
        (unsuccessful state = Some (Inr s'') \<longleftrightarrow>
           (\<exists>n. bubble n (s'\<lparr> needsSeperator := False, step := step s' + 1 \<rparr>) = Inr s''
              \<and> \<not> completed s''
              \<and> (\<forall>i<n. \<exists>u. bubble i (s'\<lparr> needsSeperator := False, step := step s' + 1 \<rparr>) = Inr u
                           \<and> completed u))))"
proof (intro conjI impI allI)
  show "unwind state = Some (Inr s') \<longleftrightarrow>
      (\<exists>k. s' = (popRule ^^ k) state \<and> stops s' \<and> (\<forall>j<k. popsOn ((popRule ^^ j) state)))"
  proof
    assume "unwind state = Some (Inr s')"
    then show "\<exists>k. s' = (popRule ^^ k) state \<and> stops s' \<and> (\<forall>j<k. popsOn ((popRule ^^ j) state))"
      by (rule unwind_result)
  next
    assume "\<exists>k. s' = (popRule ^^ k) state \<and> stops s' \<and> (\<forall>j<k. popsOn ((popRule ^^ j) state))"
    then obtain k where k: "s' = (popRule ^^ k) state" "stops s'"
      "\<forall>j<k. popsOn ((popRule ^^ j) state)"
      by blast
    from unwind_funpow[OF k(3)] k(1,2) show "unwind state = Some (Inr s')"
      by (simp add: unwind_stops)
  qed
next
  fix e s''
  assume a: "unwind state = Some (Inr s') \<and> current s' = Some e \<and> ofRule e \<noteq> None \<and>
          \<not> ((\<exists>sp. separator e = Some sp \<and> ofRule sp \<noteq> None) \<and> needsSeperator s')"
  then have "rule s' \<noteq> None" by (auto simp: current_Some)
  with a have "unsuccessful state = advanceRule s' False" by (simp add: unsuccessful_def)
  moreover from a have "current s' = Some e" "ofRule e \<noteq> None"
    "\<not> ((\<exists>sp. separator e = Some sp \<and> ofRule sp \<noteq> None) \<and> needsSeperator s')"
    by blast+
  ultimately have "unsuccessful state =
      advanceLoop (s'\<lparr> needsSeperator := False, step := step s' + 1 \<rparr>)"
    using advanceRule_skip[of s' e] by auto
  then show "unsuccessful state = Some (Inr s'') \<longleftrightarrow>
           (\<exists>n. bubble n (s'\<lparr> needsSeperator := False, step := step s' + 1 \<rparr>) = Inr s''
              \<and> \<not> completed s''
              \<and> (\<forall>i<n. \<exists>u. bubble i (s'\<lparr> needsSeperator := False, step := step s' + 1 \<rparr>) = Inr u
                           \<and> completed u))"
    by (simp only: advanceLoop_state)
next
  assume "unwind state = Some (Inr s')"
  then show "unsuccessful state = (if rule s' = None then Some (Inr s') else advanceRule s' False)"
    by (simp add: unsuccessful_def)
next
  fix e
  assume a: "unwind state = Some (Inr s') \<and> current s' = Some e \<and> ofRule e \<noteq> None"
  then have "rule s' \<noteq> None" by (auto simp: current_Some)
  with a have "unsuccessful state = advanceRule s' False" by (simp add: unsuccessful_def)
  with a show "unsuccessful state =
          (if (\<exists>sp. separator e = Some sp \<and> ofRule sp \<noteq> None) \<and> needsSeperator s'
           then Some (Inr (s'\<lparr> needsSeperator := False \<rparr>))
           else advanceLoop (s'\<lparr> needsSeperator := False, step := step s' + 1 \<rparr>))"
    by (simp add: advanceRule_skip)
qed

theorem unsuccessful_unwinds_witness:
  "unwind (fieldAt 0) = Some (Inr (documentAt 1 False)) \<and>
   unsuccessful (fieldAt 0) = Some (Inr (documentAt 2 False)) \<and>
   unwind marksAt = Some (Inr marksAt) \<and>
   completed (marksAt\<lparr> needsSeperator := False, step := 2 \<rparr>) \<and>
   unsuccessful marksAt = Some (Inr (documentAt 1 True))"
proof -
  let ?m = "marksAt\<lparr> needsSeperator := False, step := step marksAt + 1 \<rparr>"
  have cm: "current marksAt = Some (ListOf (punct ''@'') None)"
    by (simp add: current_def)
  then have "stops marksAt" by (simp add: stops_def)
  then have "\<exists>k. marksAt = (popRule ^^ k) marksAt \<and> stops marksAt \<and>
      (\<forall>j<k. popsOn ((popRule ^^ j) marksAt))"
    by (intro exI[of _ 0]) simp
  with unsuccessful_unwinds[of marksAt marksAt]
  have um: "unwind marksAt = Some (Inr marksAt)" by blast
  have m2: "?m = marksAt\<lparr> needsSeperator := False, step := 2 \<rparr>" by simp
  have km: "completed ?m" by (simp add: completed_def)
  have pm: "popAdvance ?m = Inr (documentAt 1 True)"
    by (simp add: popAdvance_def popRule_def isList_def current_def Let_def clone_def marksAt_def
        fieldAt_def documentAt_def documentState_def initialState_def)
  have nm: "\<not> completed (documentAt 1 True)" by (simp add: completed_def)
  have ex: "\<exists>n. bubble n ?m = Inr (documentAt 1 True) \<and> \<not> completed (documentAt 1 True) \<and>
      (\<forall>i<n. \<exists>u. bubble i ?m = Inr u \<and> completed u)"
    using pm nm km by (intro exI[of _ 1]) simp
  have om: "ofRule (ListOf (punct ''@'') None) \<noteq> None" by simp
  have sm: "\<not> ((\<exists>sp. separator (ListOf (punct ''@'') None) = Some sp \<and> ofRule sp \<noteq> None) \<and>
      needsSeperator marksAt)" by simp
  from unsuccessful_unwinds[of marksAt marksAt] um cm om sm ex
  have mm: "unsuccessful marksAt = Some (Inr (documentAt 1 True))" by blast
  have s: "stops (documentAt 1 False)" by (simp add: stops_def current_def)
  have p: "popsOn (fieldAt 0)" by (simp add: popsOn_def current_def nameT_def)
  have "\<exists>k. documentAt 1 False = (popRule ^^ k) (fieldAt 0) \<and> stops (documentAt 1 False) \<and>
      (\<forall>j<k. popsOn ((popRule ^^ j) (fieldAt 0)))"
    using s p by (intro exI[of _ 1]) (simp add: popRule_fieldAt)
  with unsuccessful_unwinds[of "fieldAt 0" "documentAt 1 False"]
  have u: "unwind (fieldAt 0) = Some (Inr (documentAt 1 False))" by blast
  have c: "current (documentAt 1 False) = Some (ListOf (Ref ''Field'') (Some (punct '','')))"
    by (simp add: current_def)
  have o: "ofRule (ListOf (Ref ''Field'') (Some (punct '',''))) \<noteq> None" by simp
  have n: "\<not> ((\<exists>sp. separator (ListOf (Ref ''Field'') (Some (punct '',''))) = Some sp \<and> ofRule sp \<noteq> None)
      \<and> needsSeperator (documentAt 1 False))" by simp
  from unsuccessful_unwinds[of "fieldAt 0" "documentAt 1 False"] u c o
  have "unsuccessful (fieldAt 0) =
      (if (\<exists>sp. separator (ListOf (Ref ''Field'') (Some (punct '',''))) = Some sp \<and> ofRule sp \<noteq> None)
          \<and> needsSeperator (documentAt 1 False)
       then Some (Inr ((documentAt 1 False)\<lparr> needsSeperator := False \<rparr>))
       else advanceLoop ((documentAt 1 False)\<lparr> needsSeperator := False,
              step := step (documentAt 1 False) + 1 \<rparr>))"
    by blast
  with n have "unsuccessful (fieldAt 0) = advanceLoop ((documentAt 1 False)\<lparr> needsSeperator := False,
              step := step (documentAt 1 False) + 1 \<rparr>)" by simp
  moreover have "(documentAt 1 False)\<lparr> needsSeperator := False, step := step (documentAt 1 False) + 1 \<rparr>
      = documentAt 2 False" by (simp add: documentAt_def)
  moreover have "\<not> completed (documentAt 2 False)" by (simp add: completed_def)
  ultimately have "unsuccessful (fieldAt 0) = Some (Inr (documentAt 2 False))"
    by (simp add: advanceLoop_done)
  with u um km m2 mm show ?thesis by (simp add: numeral_2_eq_2)
qed

section \<open>The lexer\<close>

lemma lex_none:
  "\<forall>(k, p) \<in> set kinds. p (rest stream) = None \<Longrightarrow> lex kinds stream = (None, stream)"
  by (induction kinds) (auto simp: smatch_def)

lemma lex_first:
  "\<forall>(k', p') \<in> set before. p' (rest stream) = None \<Longrightarrow> p (rest stream) = Some n \<Longrightarrow>
   lex (before @ (k, p) # after) stream =
     (Some \<lparr> tkind = k, tvalue = take n (rest stream) \<rparr>,
      stream\<lparr> pos := pos stream + length (take n (rest stream)) \<rparr>)"
  by (induction before) (auto simp: smatch_def Let_def)

lemma lex_lexSpec:
  "\<forall>(k, p) \<in> set kinds. \<forall>n. p (rest stream) = Some n \<longrightarrow> take n (rest stream) \<noteq> [] \<Longrightarrow>
   lex kinds stream = lexSpec kinds stream"
  by (induction kinds) (auto simp: smatch_def Let_def split: option.splits)

lemma lex_pos:
  "lex kinds stream = (Some token, stream') \<Longrightarrow>
     stream' = stream\<lparr> pos := pos stream + length (tvalue token) \<rparr>"
  by (induction kinds) (auto simp: smatch_def Let_def split: option.splits)

text \<open>
  C9, as the claim states it, fails: \<^verbatim>\<open>lex\<close> does not look at the length of a match.
  With the table \<^verbatim>\<open>{ A: /^a*/, B: /^b/ }\<close> and the text \<^verbatim>\<open>b\<close> it returns the token of
  kind A with the empty value and leaves the stream where it was, where the first
  pattern that consumes a non-empty prefix is B.
\<close>

theorem lex_empty_match_counterexample:
  "lex [(''A'', aStar), (''B'', oneB)] (streamOf ''b'')
     = (Some \<lparr> tkind = ''A'', tvalue = '''' \<rparr>, streamOf ''b'')
   \<and> lexSpec [(''A'', aStar), (''B'', oneB)] (streamOf ''b'')
     = (Some \<lparr> tkind = ''B'', tvalue = ''b'' \<rparr>, (streamOf ''b'')\<lparr> pos := 1 \<rparr>)
   \<and> lex [(''A'', aStar), (''B'', oneB)] (streamOf ''b'')
     \<noteq> lexSpec [(''A'', aStar), (''B'', oneB)] (streamOf ''b'')"
  by (simp add: smatch_def rest_def aStar_def oneB_def streamOf_def)

text \<open>
  C9, amended: \<^verbatim>\<open>lex\<close> tries the patterns in table order and returns the token built
  from the first pattern that matches at the cursor, its value the matched text (which
  may be empty), the stream advanced by the length of the value; earlier entries win.
  It returns no token, and leaves the stream as it was, when no pattern matches. When
  no pattern of the table matches the empty string at the cursor, this is the first
  pattern that consumes a non-empty prefix.
\<close>

theorem lex_first_match:
  "((\<forall>(k, p) \<in> set kinds. p (rest stream) = None) \<longrightarrow> lex kinds stream = (None, stream))
   \<and> (kinds = before @ (k, p) # after \<and> (\<forall>(k', p') \<in> set before. p' (rest stream) = None) \<and>
        p (rest stream) = Some n \<longrightarrow>
        lex kinds stream =
          (Some \<lparr> tkind = k, tvalue = take n (rest stream) \<rparr>,
           stream\<lparr> pos := pos stream + length (take n (rest stream)) \<rparr>))
   \<and> ((\<forall>(k, p) \<in> set kinds. \<forall>n. p (rest stream) = Some n \<longrightarrow> take n (rest stream) \<noteq> []) \<longrightarrow>
        lex kinds stream = lexSpec kinds stream)"
  using lex_none[of kinds stream] lex_first[of before stream p n k after]
    lex_lexSpec[of kinds stream]
  by blast

theorem lex_first_match_witness:
  "lex (lexRules exampleOptions) (streamOf ''name}'')
     = (Some \<lparr> tkind = ''Name'', tvalue = ''name'' \<rparr>, (streamOf ''name}'')\<lparr> pos := 4 \<rparr>)
   \<and> lex (lexRules exampleOptions) (streamOf ''!'') = (None, streamOf ''!'')"
proof -
  have k: "lexRules exampleOptions =
      [(''Punctuation'', punctPattern)] @ (''Name'', namePattern) # [(''Comment'', commentPattern)]"
    by (simp add: exampleOptions_def)
  have b: "\<forall>(k', p') \<in> set [(''Punctuation'', punctPattern)]. p' (rest (streamOf ''name}'')) = None"
    by (simp add: punctPattern_def rest_def streamOf_def)
  have n: "namePattern (rest (streamOf ''name}'')) = Some 4"
    by (simp add: namePattern_def rest_def streamOf_def isLetter_def)
  have t: "take 4 (rest (streamOf ''name}'')) = ''name''" "pos (streamOf ''name}'') = 0"
    by (simp_all add: rest_def streamOf_def)
  have z: "\<forall>(k, p) \<in> set (lexRules exampleOptions). p (rest (streamOf ''!'')) = None"
    by (simp add: exampleOptions_def punctPattern_def namePattern_def commentPattern_def
        rest_def streamOf_def isLetter_def)
  from lex_first_match[of "lexRules exampleOptions" "streamOf ''name}''"
      "[(''Punctuation'', punctPattern)]" "''Name''" namePattern "[(''Comment'', commentPattern)]" 4]
    k b n
  have "lex (lexRules exampleOptions) (streamOf ''name}'') =
      (Some \<lparr> tkind = ''Name'', tvalue = take 4 (rest (streamOf ''name}'')) \<rparr>,
       (streamOf ''name}'')\<lparr> pos := pos (streamOf ''name}'') + length (take 4 (rest (streamOf ''name}''))) \<rparr>)"
    by blast
  moreover from lex_first_match[of "lexRules exampleOptions" "streamOf ''!''"] z
  have "lex (lexRules exampleOptions) (streamOf ''!'') = (None, streamOf ''!'')" by blast
  ultimately show ?thesis using t by simp
qed

section \<open>The token step driver\<close>

lemma setAnnot_fields [simp]:
  "rule (setAnnot a f) = rule f" "step (setAnnot a f) = step f"
  "needsSeperator (setAnnot a f) = needsSeperator f"
  "needsAdvance (setAnnot a f) = needsAdvance f"
  "indentLevel (setAnnot a f) = indentLevel f" "levels (setAnnot a f) = levels f"
  by (simp_all add: setAnnot_def)

lemma runUpdate_fields [simp]:
  "rule (runUpdate u token state) = rule state" "step (runUpdate u token state) = step state"
  "needsSeperator (runUpdate u token state) = needsSeperator state"
  "needsAdvance (runUpdate u token state) = needsAdvance state"
  "indentLevel (runUpdate u token state) = indentLevel state"
  "levels (runUpdate u token state) = levels state"
  by (simp_all add: runUpdate_def setAnnot_def split: option.splits list.splits)

lemma expected_Some_rule:
  "expected token stream state = Inr (Some e) \<Longrightarrow>
     rule state \<noteq> None \<and> rule state \<noteq> Some (Seq [])"
  by (auto simp: expected_def element_def Let_def
      split: option.splits parse_rule.splits if_splits sum.splits)

lemma inheritedCall_zeroLength:
  "k \<in> set zeroLength \<Longrightarrow>
     inheritedCall k = Inr (Some (Ref ''[object Object]'')) \<or>
     inheritedCall k = Inr (Some (Terminal (\<lambda>t. False) None []))"
  by (auto simp: zeroLength_def inheritedCall_def)

lemma expected_match_not_empty:
  assumes "expected token stream t = Inr (Some (Terminal match update style))" and "match token"
  shows "\<not> emptyRule t"
proof
  assume "emptyRule t"
  then consider "rule t = Some (Seq [])" | k where "rule t = Some (Inherited k)" "k \<in> set zeroLength"
    by (auto simp: emptyRule_iff)
  then show False
  proof cases
    case 1
    with expected_Some_rule[OF assms(1)] show False by simp
  next
    case 2
    from inheritedCall_zeroLength[OF 2(2)] 2(1) assms show False
      by (auto simp: expected_def element_def Let_def split: if_splits)
  qed
qed

lemma needsAdvance_same: "needsAdvance s = b \<Longrightarrow> s\<lparr> needsAdvance := b \<rparr> = s"
  by auto

lemma matchStep_Terminal:
  "expected token stream state = Inr (Some (Terminal match update style)) \<Longrightarrow> match token \<Longrightarrow>
   matchStep rules token stream state =
     (if tkind token = ''Punctuation'' then
        (case advanceRule (runUpdate update token state) True of
           None \<Rightarrow> None
         | Some (Inl e) \<Rightarrow> Some (Inl e)
         | Some (Inr state') \<Rightarrow> Some (Inr (Return style state')))
      else Some (Inr (Return style ((runUpdate update token state)\<lparr> needsAdvance := True \<rparr>))))"
  by (simp add: matchStep_def Let_def)

lemma matchLoop_end:
  "rule state = None \<Longrightarrow> matchLoop rules token stream state = Some (Inr (None, state))"
  by (subst matchLoop.simps) simp

lemma matchLoop_step:
  "rule state \<noteq> None \<Longrightarrow> matchLoop rules token stream state =
     (case matchStep rules token stream state of
        None \<Rightarrow> None
      | Some (Inl e) \<Rightarrow> Some (Inl e)
      | Some (Inr (Return style state')) \<Rightarrow> Some (Inr (Some style, state'))
      | Some (Inr (Again state')) \<Rightarrow> matchLoop rules token stream state')"
  by (subst matchLoop.simps) auto

lemma pushRule_Special:
  "pushRule SpecialParseRules b ''Invalid'' =
     Inr (b\<lparr> prevState := clone b # prevState b, kind := Some ''Invalid'', name := None,
              type := None, rule := Some (Seq []), step := 0, needsSeperator := False \<rparr>)"
  "pushRule SpecialParseRules b ''Comment'' =
     Inr (b\<lparr> prevState := clone b # prevState b, kind := Some ''Comment'', name := None,
              type := None, rule := Some (Seq []), step := 0, needsSeperator := False \<rparr>)"
  by (simp_all add: pushRule_def SpecialParseRules_def)

lemma matchLoop_iterations:
  "iterations n rules token stream s = Some t \<Longrightarrow>
     matchLoop rules token stream s = matchLoop rules token stream t"
proof (induction n arbitrary: s)
  case 0
  then show ?case by simp
next
  case (Suc n)
  from Suc.prems have r: "rule s \<noteq> None" by (auto split: if_splits)
  with Suc.prems obtain s1 where s1: "matchStep rules token stream s = Some (Inr (Again s1))"
    "iterations n rules token stream s1 = Some t"
    by (auto split: option.splits sum.splits iteration.splits)
  from Suc.IH[OF s1(2)] r s1(1) show ?case by (simp add: matchLoop_step)
qed

lemma popRule_needsAdvance [simp]: "needsAdvance (popRule s) = needsAdvance s"
  by (simp add: popRule_def split: list.splits)

lemma bubble_needsAdvance: "bubble n s = Inr a \<Longrightarrow> needsAdvance a = needsAdvance s"
proof (induction n arbitrary: s)
  case 0
  then show ?case by simp
next
  case (Suc n)
  then obtain s1 where s1: "popAdvance s = Inr s1" "bubble n s1 = Inr a"
    by (auto split: sum.splits)
  from popAdvance_pops[OF s1(1)] have "needsAdvance s1 = needsAdvance s" by auto
  with Suc.IH[OF s1(2)] show ?case by simp
qed

text \<open>The state \<^verbatim>\<open>advanceRule\<close> returns has no empty rule, and the call leaves
  \<^verbatim>\<open>needsAdvance\<close> as it was.\<close>

lemma advanceRule_settled:
  assumes "advanceRule s b = Some (Inr a)"
  shows "\<not> emptyRule a \<and> needsAdvance a = needsAdvance s"
proof -
  have loop: "\<not> emptyRule a \<and> needsAdvance a = needsAdvance s"
    if "advanceLoop (s\<lparr> needsSeperator := False, step := step s + 1 \<rparr>) = Some (Inr a)"
  proof -
    from advanceLoop_unrolls[OF that] obtain n where
      n: "bubble n (s\<lparr> needsSeperator := False, step := step s + 1 \<rparr>) = Inr a" "\<not> completed a"
      by blast
    from n(2) have "\<not> emptyRule a"
      by (auto simp: completed_def emptyRule_def split: option.splits parse_rule.splits)
    with bubble_needsAdvance[OF n(1)] show ?thesis by simp
  qed
  have stay: "\<not> emptyRule (s\<lparr> needsSeperator := x \<rparr>)" if "isList s = Inr True" for x
    using that by (auto simp: isList_def emptyRule_def split: option.splits parse_rule.splits if_splits)
  have stay': "\<not> emptyRule s" if "isList s = Inr True"
    using that by (auto simp: isList_def emptyRule_def split: option.splits parse_rule.splits if_splits)
  from assms show ?thesis
    using loop stay stay'
    by (auto simp: advanceRule_def Let_def split: sum.splits if_splits option.splits)
qed

text \<open>
  C8: a call of \<^verbatim>\<open>getToken\<close> that lexes a token (no white space before it, no
  Comment) and whose loop comes, after any number \<open>n\<close> of iterations, to a state \<open>t\<close> at
  which the expected element is a Terminal that matches the token. The call runs the
  \<^verbatim>\<open>update\<close> hook and returns the Terminal's style with the stream as the lexer left it.
  For a Punctuation token the state it leaves is the one \<^verbatim>\<open>advanceRule(state, true)\<close>
  gives in this call. For any other token it leaves the updated state with
  \<^verbatim>\<open>needsAdvance\<close> set, and the next call on that state (on any stream) clears the flag
  and performs that advance before anything else: it is the rest of \<^verbatim>\<open>getToken\<close> on the
  advanced state, and the same as a call on the advanced state. A call on a state with
  an empty rule pops that rule instead, performs no advance and leaves \<^verbatim>\<open>needsAdvance\<close>
  as it was.
\<close>

theorem getToken_terminal_advance:
  assumes "restore state = Some (Inr s0)"
    and "eatWhitespace opts stream = (False, stream1)"
    and "lex (lexRules opts) stream1 = (Some token, stream2)"
    and "tkind token \<noteq> ''Comment''"
    and "iterations n (parseRules opts) token stream2
           (adjustLevels token (rememberIndent opts stream s0)) = Some t"
    and "expected token stream2 t = Inr (Some (Terminal match update style))"
    and "match token"
  shows "(tkind token = ''Punctuation'' \<longrightarrow>
            getToken opts stream state =
              (case advanceRule (runUpdate update token t) True of
                 None \<Rightarrow> None
               | Some (Inl e) \<Rightarrow> Some (Inl e)
               | Some (Inr t') \<Rightarrow> Some (Inr (style, stream2, t'))))
       \<and> (tkind token \<noteq> ''Punctuation'' \<longrightarrow>
            getToken opts stream state =
              Some (Inr (style, stream2, (runUpdate update token t)\<lparr> needsAdvance := True \<rparr>))
            \<and> (\<forall>stream'.
                  getToken opts stream' ((runUpdate update token t)\<lparr> needsAdvance := True \<rparr>) =
                    (case advanceRule ((runUpdate update token t)\<lparr> needsAdvance := False \<rparr>) True of
                       None \<Rightarrow> None
                     | Some (Inl e) \<Rightarrow> Some (Inl e)
                     | Some (Inr a) \<Rightarrow> scanToken opts stream' a))
            \<and> (\<forall>stream' a.
                  advanceRule ((runUpdate update token t)\<lparr> needsAdvance := False \<rparr>) True
                    = Some (Inr a) \<longrightarrow>
                  getToken opts stream' ((runUpdate update token t)\<lparr> needsAdvance := True \<rparr>) =
                    getToken opts stream' a))
       \<and> (\<forall>s stream'. emptyRule s \<longrightarrow>
              getToken opts stream' s = scanToken opts stream' (popRule s) \<and>
              needsAdvance (popRule s) = needsAdvance s)"
proof -
  let ?u = "runUpdate update token t"
  let ?d = "?u\<lparr> needsAdvance := True \<rparr>"
  from expected_Some_rule[OF assms(6)] have rt: "rule t \<noteq> None" by simp
  have loop: "matchLoop (parseRules opts) token stream2
      (adjustLevels token (rememberIndent opts stream s0)) =
      (case matchStep (parseRules opts) token stream2 t of
         None \<Rightarrow> None
       | Some (Inl e) \<Rightarrow> Some (Inl e)
       | Some (Inr (Return style state')) \<Rightarrow> Some (Inr (Some style, state'))
       | Some (Inr (Again state')) \<Rightarrow> matchLoop (parseRules opts) token stream2 state')"
    using matchLoop_iterations[OF assms(5)] rt by (simp add: matchLoop_step)
  have call: "getToken opts stream state =
      (case matchLoop (parseRules opts) token stream2
              (adjustLevels token (rememberIndent opts stream s0)) of
         None \<Rightarrow> None
       | Some (Inl e) \<Rightarrow> Some (Inl e)
       | Some (Inr (Some style, state')) \<Rightarrow> Some (Inr (style, stream2, state'))
       | Some (Inr (None, state')) \<Rightarrow>
           (case pushRule SpecialParseRules (rememberIndent opts stream s0) ''Invalid'' of
              Inl e \<Rightarrow> Some (Inl e)
            | Inr state'' \<Rightarrow> Some (Inr (''invalidchar'', stream2, state''))))"
    using assms(1-4) by (simp add: getToken_def scanToken_def parseToken_def Let_def)
  have punct: "getToken opts stream state =
      (case advanceRule ?u True of
         None \<Rightarrow> None
       | Some (Inl e) \<Rightarrow> Some (Inl e)
       | Some (Inr t') \<Rightarrow> Some (Inr (style, stream2, t')))"
    if "tkind token = ''Punctuation''"
    using that by (simp add: call loop matchStep_Terminal[OF assms(6,7)] split: option.splits sum.splits)
  have other: "getToken opts stream state = Some (Inr (style, stream2, ?d))"
    if "tkind token \<noteq> ''Punctuation''"
    using that by (simp add: call loop matchStep_Terminal[OF assms(6,7)])
  have ne: "\<not> emptyRule ?d"
    using expected_match_not_empty[OF assms(6,7)] by (simp add: emptyRule_def)
  have rd: "restore ?d = advanceRule (?u\<lparr> needsAdvance := False \<rparr>) True"
    using ne by (simp add: restore_def)
  have next1: "getToken opts stream' ?d =
      (case advanceRule (?u\<lparr> needsAdvance := False \<rparr>) True of
         None \<Rightarrow> None
       | Some (Inl e) \<Rightarrow> Some (Inl e)
       | Some (Inr a) \<Rightarrow> scanToken opts stream' a)" for stream'
    by (simp add: getToken_def rd)
  have next2: "getToken opts stream' ?d = getToken opts stream' a"
    if a: "advanceRule (?u\<lparr> needsAdvance := False \<rparr>) True = Some (Inr a)" for stream' a
  proof -
    from advanceRule_settled[OF a] have "\<not> emptyRule a" "\<not> needsAdvance a" by simp_all
    then have "restore a = Some (Inr a)" by (simp add: restore_def)
    then show ?thesis by (simp add: getToken_def rd a)
  qed
  have pop: "getToken opts stream' s = scanToken opts stream' (popRule s) \<and>
      needsAdvance (popRule s) = needsAdvance s" if "emptyRule s" for s stream'
    using that by (simp add: getToken_def restore_def)
  from punct other next1 next2 pop show ?thesis by blast
qed

lemma example_options [simp]:
  "parseRules exampleOptions = exampleRules" "eatWhitespace exampleOptions = eatSpaces"
  "lexRules exampleOptions =
     [(''Punctuation'', punctPattern), (''Name'', namePattern), (''Comment'', commentPattern)]"
  "tabSize exampleOptions = None"
  by (simp_all add: exampleOptions_def)

lemma openState_fields [simp]:
  "rule openState = exampleRules ''Document''" "step openState = 1"
  "needsSeperator openState = False" "needsAdvance openState = False"
  "prevState openState = [clone initialState]"
  by (simp_all add: openState_def)

theorem getToken_terminal_advance_witness:
  "getToken exampleOptions (streamOf ''{name}'') documentState =
     Some (Inr (''punctuation'', (streamOf ''{name}'')\<lparr> pos := 1 \<rparr>, openState)) \<and>
   getToken exampleOptions ((streamOf ''{name}'')\<lparr> pos := 1 \<rparr>) openState =
     Some (Inr (''property'', (streamOf ''{name}'')\<lparr> pos := 5 \<rparr>,
                (fieldOn openState)\<lparr> name := Some ''name'', needsAdvance := True \<rparr>)) \<and>
   advanceRule ((fieldOn openState)\<lparr> name := Some ''name'', needsAdvance := False \<rparr>) True =
     Some (Inr (openState\<lparr> needsSeperator := True \<rparr>)) \<and>
   getToken exampleOptions ((streamOf ''{name}'')\<lparr> pos := 5 \<rparr>)
       ((fieldOn openState)\<lparr> name := Some ''name'', needsAdvance := True \<rparr>) =
     scanToken exampleOptions ((streamOf ''{name}'')\<lparr> pos := 5 \<rparr>)
       (openState\<lparr> needsSeperator := True \<rparr>)"
proof -
  let ?str = "streamOf ''{name}''"
  let ?brace = "\<lparr> tkind = ''Punctuation'', tvalue = ''{'' \<rparr>"
  let ?tok = "\<lparr> tkind = ''Name'', tvalue = ''name'' \<rparr>"
  let ?upd = "Some (\<lambda>(t::token) as. case as of [] \<Rightarrow> [] | (k, n, ty) # r \<Rightarrow> (k, Some (tvalue t), ty) # r)"
  let ?t0 = "documentState\<lparr> levels := Some [1] \<rparr>"
  text \<open>The first call: the opening brace, a Punctuation token.\<close>
  have r0: "restore documentState = Some (Inr documentState)"
    by (simp add: restore_def documentState_def initialState_def)
  have w0: "eatWhitespace exampleOptions ?str = (False, ?str)"
    by (simp add: eatSpaces_def isIgnored_def streamOf_def rest_def)
  have l0: "lex (lexRules exampleOptions) ?str = (Some ?brace, ?str\<lparr> pos := 1 \<rparr>)"
    by (simp add: smatch_def streamOf_def rest_def punctPattern_def Let_def)
  have c0: "tkind ?brace \<noteq> ''Comment''" by simp
  have i0: "iterations 0 (parseRules exampleOptions) ?brace (?str\<lparr> pos := 1 \<rparr>)
      (adjustLevels ?brace (rememberIndent exampleOptions ?str documentState)) = Some ?t0"
    by (simp add: adjustLevels_def startsWith_def rememberIndent_def sol_def streamOf_def
        documentState_def initialState_def)
  have e0: "expected ?brace (?str\<lparr> pos := 1 \<rparr>) ?t0 =
      Inr (Some (Terminal (\<lambda>t. tkind t = ''Punctuation'' \<and> tvalue t = ''{'') None ''punctuation''))"
    by (simp add: expected_def element_def documentState_def initialState_def punct_def)
  have m0: "(\<lambda>t. tkind t = ''Punctuation'' \<and> tvalue t = ''{'') ?brace" by simp
  have a0: "advanceRule (runUpdate None ?brace ?t0) True = Some (Inr openState)"
  proof -
    have "isList ?t0 = Inr False"
      by (simp add: isList_def documentState_def initialState_def punct_def)
    moreover have "?t0\<lparr> needsSeperator := False, step := step ?t0 + 1 \<rparr> = openState"
      by (simp add: openState_def documentAt_def documentState_def initialState_def)
    moreover have "\<not> completed openState" by (simp add: completed_def)
    ultimately show ?thesis
      by (simp add: runUpdate_def advanceRule_notList advanceLoop_done)
  qed
  from getToken_terminal_advance[OF r0 w0 l0 c0 i0 e0 m0] a0
  have first: "getToken exampleOptions ?str documentState =
      Some (Inr (''punctuation'', ?str\<lparr> pos := 1 \<rparr>, openState))"
    by simp
  text \<open>The second call: a name, after one iteration that pushes the Field rule.\<close>
  let ?s1 = "?str\<lparr> pos := 1 \<rparr>"
  let ?f = "fieldOn openState"
  have r1: "restore openState = Some (Inr openState)" by (simp add: restore_def)
  have w1: "eatWhitespace exampleOptions ?s1 = (False, ?s1)"
    by (simp add: eatSpaces_def isIgnored_def streamOf_def rest_def)
  have l1: "lex (lexRules exampleOptions) ?s1 = (Some ?tok, ?str\<lparr> pos := 5 \<rparr>)"
    by (simp add: smatch_def streamOf_def rest_def punctPattern_def namePattern_def isLetter_def
        Let_def)
  have c1: "tkind ?tok \<noteq> ''Comment''" by simp
  have p1: "matchStep exampleRules ?tok stream openState = Some (Inr (Again ?f))" for stream
    by (simp add: matchStep_def expected_def element_def pushRule_installs fieldOn_def)
  have i1: "iterations 1 (parseRules exampleOptions) ?tok (?str\<lparr> pos := 5 \<rparr>)
      (adjustLevels ?tok (rememberIndent exampleOptions ?s1 openState)) = Some ?f"
    by (simp add: adjustLevels_def rememberIndent_def sol_def streamOf_def p1)
  have e1: "expected ?tok (?str\<lparr> pos := 5 \<rparr>) ?f =
      Inr (Some (Terminal (\<lambda>t. tkind t = ''Name'') ?upd ''property''))"
    by (simp add: expected_def element_def fieldOn_def nameT_def)
  have m1: "(\<lambda>t. tkind t = ''Name'') ?tok" by simp
  have u1: "runUpdate ?upd ?tok ?f = ?f\<lparr> name := Some ''name'' \<rparr>"
    by (simp add: runUpdate_def annotOf_def setAnnot_def fieldOn_def openState_def documentAt_def
        documentState_def initialState_def clone_def)
  have k1: "tkind ?tok \<noteq> ''Punctuation''" by simp
  have a1: "advanceRule (?f\<lparr> name := Some ''name'', needsAdvance := False \<rparr>) True =
      Some (Inr (openState\<lparr> needsSeperator := True \<rparr>))"
  proof -
    let ?g = "?f\<lparr> name := Some ''name'', needsAdvance := False \<rparr>"
    let ?h = "?g\<lparr> needsSeperator := False, step := step ?g + 1 \<rparr>"
    have "isList ?g = Inr False" by (simp add: isList_def fieldOn_def nameT_def)
    moreover have "completed ?h" by (simp add: completed_def fieldOn_def)
    moreover have "popAdvance ?h = Inr (openState\<lparr> needsSeperator := True \<rparr>)"
      by (simp add: popAdvance_def popRule_def isList_def current_def Let_def clone_def
          fieldOn_def openState_def documentAt_def documentState_def initialState_def)
    moreover have "\<not> completed (openState\<lparr> needsSeperator := True \<rparr>)"
      by (simp add: completed_def)
    ultimately show ?thesis
      by (simp add: advanceRule_notList advanceLoop_completed advanceLoop_done)
  qed
  from getToken_terminal_advance[OF r1 w1 l1 c1 i1 e1 m1] k1 u1
  have second: "getToken exampleOptions ?s1 openState =
      Some (Inr (''property'', ?str\<lparr> pos := 5 \<rparr>, ?f\<lparr> name := Some ''name'', needsAdvance := True \<rparr>))"
    and third: "\<forall>stream'. getToken exampleOptions stream' (?f\<lparr> name := Some ''name'', needsAdvance := True \<rparr>) =
      (case advanceRule (?f\<lparr> name := Some ''name'', needsAdvance := False \<rparr>) True of
         None \<Rightarrow> None
       | Some (Inl e) \<Rightarrow> Some (Inl e)
       | Some (Inr a) \<Rightarrow> scanToken exampleOptions stream' a)"
    by simp_all
  from third a1
  have "getToken exampleOptions (?str\<lparr> pos := 5 \<rparr>) (?f\<lparr> name := Some ''name'', needsAdvance := True \<rparr>) =
      scanToken exampleOptions (?str\<lparr> pos := 5 \<rparr>) (openState\<lparr> needsSeperator := True \<rparr>)"
    by simp
  with first second a1 show ?thesis by simp
qed

text \<open>
  C3: when the token is lexed, is no Comment, and the grammar loop ends with no rule
  left and no Terminal matched, \<^verbatim>\<open>getToken\<close> returns \<^verbatim>\<open>invalidchar\<close> with the stream as
  the lexer left it (advanced by the length of the token) and with the state that
  \<^verbatim>\<open>pushRule\<close> of the Invalid sentinel makes from the snapshot: popping the sentinel
  gives the snapshot back, and \<^verbatim>\<open>needsAdvance\<close>, \<^verbatim>\<open>indentLevel\<close> and \<^verbatim>\<open>levels\<close> are
  those of the snapshot. The snapshot is the state after the start of the call (the
  pop of an empty rule or the deferred advance, and the indentation), before the
  handling of \<^verbatim>\<open>levels\<close> and the loop.
\<close>

theorem getToken_rollback_invalid:
  assumes "restore state = Some (Inr s0)"
    and "eatWhitespace opts stream = (False, stream1)"
    and "lex (lexRules opts) stream1 = (Some token, stream2)"
    and "tkind token \<noteq> ''Comment''"
    and "matchLoop (parseRules opts) token stream2
           (adjustLevels token (rememberIndent opts stream s0)) = Some (Inr (None, sx))"
  shows "\<exists>s'. getToken opts stream state = Some (Inr (''invalidchar'', stream2, s'))
           \<and> popRule s' = rememberIndent opts stream s0
           \<and> prevState s' = clone (rememberIndent opts stream s0) # prevState s0
           \<and> kind s' = Some ''Invalid'' \<and> name s' = None \<and> type s' = None
           \<and> rule s' = Some (Seq []) \<and> step s' = 0 \<and> \<not> needsSeperator s'
           \<and> needsAdvance s' = needsAdvance s0
           \<and> indentLevel s' = indentLevel (rememberIndent opts stream s0)
           \<and> levels s' = levels s0
           \<and> stream2 = stream1\<lparr> pos := pos stream1 + length (tvalue token) \<rparr>"
proof -
  let ?b = "rememberIndent opts stream s0"
  let ?s = "?b\<lparr> prevState := clone ?b # prevState ?b, kind := Some ''Invalid'', name := None,
              type := None, rule := Some (Seq []), step := 0, needsSeperator := False \<rparr>"
  have g: "getToken opts stream state = Some (Inr (''invalidchar'', stream2, ?s))"
    using assms by (simp add: getToken_def scanToken_def parseToken_def pushRule_Special Let_def)
  have p: "popRule ?s = ?b" by (simp add: popRule_def clone_def)
  have r: "prevState ?b = prevState s0" "needsAdvance ?b = needsAdvance s0" "levels ?b = levels s0"
    by (simp_all add: rememberIndent_def Let_def)
  from lex_pos[OF assms(3)]
  have "stream2 = stream1\<lparr> pos := pos stream1 + length (tvalue token) \<rparr>" .
  with g p r show ?thesis by simp
qed

lemma example_at: "lex (lexRules exampleOptions) (streamOf ''@'') =
    (Some \<lparr> tkind = ''Punctuation'', tvalue = ''@'' \<rparr>, (streamOf ''@'')\<lparr> pos := 1 \<rparr>)"
  by (simp add: exampleOptions_def smatch_def streamOf_def rest_def punctPattern_def Let_def)

lemma example_at_loop:
  "matchLoop exampleRules \<lparr> tkind = ''Punctuation'', tvalue = ''@'' \<rparr> stream (documentAt 0 False)
    = Some (Inr (None, initialState))"
proof -
  let ?tok = "\<lparr> tkind = ''Punctuation'', tvalue = ''@'' \<rparr>"
  have "popsOn (documentAt 0 False)" by (simp add: popsOn_def current_def punct_def)
  moreover have p: "popRule (documentAt 0 False) = initialState"
    by (simp add: popRule_def documentAt_def documentState_def initialState_def clone_def)
  moreover have "stops initialState" by (simp add: stops_def initialState_def)
  ultimately have "unwind (documentAt 0 False) = Some (Inr initialState)"
    by (simp add: unwind_pops unwind_stops)
  then have "unsuccessful (documentAt 0 False) = Some (Inr initialState)"
    by (simp add: unsuccessful_def initialState_def)
  then have "matchStep exampleRules ?tok stream (documentAt 0 False) = Some (Inr (Again initialState))"
    by (simp add: matchStep_def expected_def element_def punct_def)
  then show ?thesis
    by (simp add: matchLoop_step) (simp add: matchLoop_end initialState_def)
qed

theorem getToken_rollback_invalid_witness:
  "\<exists>s'. getToken exampleOptions (streamOf ''@'') documentState
       = Some (Inr (''invalidchar'', (streamOf ''@'')\<lparr> pos := 1 \<rparr>, s'))
     \<and> popRule s' = documentState \<and> rule s' = Some (Seq []) \<and> kind s' = Some ''Invalid''"
proof -
  let ?tok = "\<lparr> tkind = ''Punctuation'', tvalue = ''@'' \<rparr>"
  have d: "documentAt 0 False = documentState"
    by (simp add: documentAt_def documentState_def initialState_def)
  have r: "restore documentState = Some (Inr documentState)"
    by (simp add: restore_def documentState_def initialState_def)
  have w: "eatWhitespace exampleOptions (streamOf ''@'') = (False, streamOf ''@'')"
    by (simp add: exampleOptions_def eatSpaces_def isIgnored_def streamOf_def rest_def)
  have i: "rememberIndent exampleOptions (streamOf ''@'') documentState = documentState"
    by (simp add: rememberIndent_def sol_def streamOf_def exampleOptions_def documentState_def
        initialState_def)
  have a: "adjustLevels ?tok documentState = documentState"
    by (simp add: adjustLevels_def startsWith_def)
  have l: "matchLoop (parseRules exampleOptions) ?tok ((streamOf ''@'')\<lparr> pos := 1 \<rparr>)
      (adjustLevels ?tok (rememberIndent exampleOptions (streamOf ''@'') documentState))
      = Some (Inr (None, initialState))"
  proof -
    have "parseRules exampleOptions = exampleRules" by (simp add: exampleOptions_def)
    with example_at_loop[of "(streamOf ''@'')\<lparr> pos := 1 \<rparr>"] show ?thesis
      by (simp add: i a d)
  qed
  have c: "tkind ?tok \<noteq> ''Comment''" by simp
  from getToken_rollback_invalid[OF r w example_at c l] i show ?thesis by auto
qed

section \<open>Safety: the invariant of the states of a session\<close>

lemma chainOk_prev_nonempty:
  "chainOk rules s \<Longrightarrow> rule s \<noteq> None \<Longrightarrow> prevState s \<noteq> []"
  by (auto simp: chainOk_def clone_def)

lemma chainOk_popRule:
  "chainOk rules s \<Longrightarrow> prevState s \<noteq> [] \<Longrightarrow> chainOk rules (popRule s) \<and> validPos (popRule s)"
  by (cases "prevState s")
     (auto simp: chainOk_def popRule_def clone_def ruleOk_def validPos_def split: if_splits)

lemma chainOk_top_update:
  "chainOk rules s \<Longrightarrow> chainOk rules (s\<lparr> needsSeperator := b \<rparr>)"
  "chainOk rules s \<Longrightarrow> rule s \<noteq> None \<Longrightarrow> chainOk rules (s\<lparr> needsSeperator := b, step := i \<rparr>)"
  "chainOk rules s \<Longrightarrow> chainOk rules (s\<lparr> needsAdvance := a \<rparr>)"
  "chainOk rules s \<Longrightarrow> chainOk rules (s\<lparr> indentLevel := l \<rparr>)"
  "chainOk rules s \<Longrightarrow> chainOk rules (s\<lparr> levels := ls \<rparr>)"
  by (auto simp: chainOk_def clone_def ruleOk_def)

lemma validPos_isList: "validPos s \<Longrightarrow> \<exists>b. isList s = Inr b"
  by (auto simp: validPos_def isList_def split: option.splits parse_rule.splits)

lemma not_completed_validPos: "\<not> completed s \<Longrightarrow> validPos s"
  by (auto simp: completed_def validPos_def)

lemma completed_rule: "completed s \<Longrightarrow> rule s \<noteq> None"
  by (auto simp: completed_def split: option.splits)

lemma popAdvance_safe:
  assumes "chainOk rules s" and "completed s"
  shows "\<exists>s'. popAdvance s = Inr s' \<and> chainOk rules s' \<and> needsAdvance s' = needsAdvance s"
proof -
  from assms have ne: "prevState s \<noteq> []" by (simp add: chainOk_prev_nonempty completed_rule)
  with assms(1) have c: "chainOk rules (popRule s)" and v: "validPos (popRule s)"
    by (simp_all add: chainOk_popRule)
  from v obtain b where b: "isList (popRule s) = Inr b" using validPos_isList by blast
  have na: "needsAdvance (popRule s) = needsAdvance s" by (simp add: popRule_def split: list.splits)
  show ?thesis
  proof (cases "rule (popRule s) = None")
    case True
    with c na show ?thesis by (simp add: popAdvance_def Let_def)
  next
    case False
    with c b na show ?thesis
      by (auto simp: popAdvance_def Let_def chainOk_top_update)
  qed
qed

lemma advanceLoop_safe_aux:
  "advanceLoop s = Some r \<Longrightarrow> chainOk rules s \<longrightarrow>
     (\<exists>s'. r = Inr s' \<and> chainOk rules s' \<and> \<not> completed s' \<and> needsAdvance s' = needsAdvance s)"
proof (induction rule: advanceLoop.raw_induct[rotated 1, consumes 1])
  case (1 loop s r)
  show ?case
  proof
    assume c: "chainOk rules s"
    show "\<exists>s'. r = Inr s' \<and> chainOk rules s' \<and> \<not> completed s' \<and> needsAdvance s' = needsAdvance s"
    proof (cases "completed s")
      case False
      with 1(2) c show ?thesis by auto
    next
      case True
      from popAdvance_safe[OF c True] obtain s1 where
        s1: "popAdvance s = Inr s1" "chainOk rules s1" "needsAdvance s1 = needsAdvance s" by blast
      with 1(2) True have "loop s1 = Some r" by simp
      from 1(1)[OF this] s1 show ?thesis by simp
    qed
  qed
qed

lemma advanceLoop_safe:
  "advanceLoop s = Some r \<Longrightarrow> chainOk rules s \<Longrightarrow>
     \<exists>s'. r = Inr s' \<and> chainOk rules s' \<and> validPos s' \<and> needsAdvance s' = needsAdvance s"
  using advanceLoop_safe_aux not_completed_validPos by blast

lemma advanceRule_safe:
  assumes "advanceRule s b = Some r" and "chainOk rules s" and "validPos s"
  shows "\<exists>s'. r = Inr s' \<and> chainOk rules s' \<and> validPos s' \<and> needsAdvance s' = needsAdvance s"
proof -
  from assms(3) obtain l where l: "isList s = Inr l" using validPos_isList by blast
  have v: "validPos (s\<lparr> needsSeperator := x \<rparr>)" for x
    using assms(3) by (simp add: validPos_def)
  show ?thesis
  proof (cases "rule s = None")
    case True
    then have "\<not> completed (s\<lparr> needsSeperator := False, step := step s + 1 \<rparr>)"
      by (simp add: completed_def)
    moreover from True have "isList s = Inr False" by (simp add: isList_def)
    moreover from True have "validPos (s\<lparr> needsSeperator := False, step := step s + 1 \<rparr>)"
      by (simp add: validPos_def)
    moreover from True assms(2) have "chainOk rules (s\<lparr> needsSeperator := False, step := step s + 1 \<rparr>)"
      by (auto simp: chainOk_def clone_def ruleOk_def)
    ultimately show ?thesis using assms(1)
      by (auto simp: advanceRule_def advanceLoop_done)
  next
    case False
    then have c: "chainOk rules (s\<lparr> needsSeperator := False, step := step s + 1 \<rparr>)"
      using assms(2) by (simp add: chainOk_top_update)
    have adv: "advanceLoop (s\<lparr> needsSeperator := False, step := step s + 1 \<rparr>) = Some r \<Longrightarrow> ?thesis"
      using advanceLoop_safe[OF _ c] by auto
    from assms(1) l show ?thesis
      using adv v chainOk_top_update(1)[OF assms(2)] assms(2,3)
      by (auto simp: advanceRule_def Let_def split: option.splits if_splits)
  qed
qed

lemma unwind_safe_aux:
  "unwind s = Some r \<Longrightarrow> chainOk rules s \<and> validPos s \<longrightarrow>
     (\<exists>s'. r = Inr s' \<and> chainOk rules s' \<and> validPos s' \<and> needsAdvance s' = needsAdvance s)"
proof (induction rule: unwind.raw_induct[rotated 1, consumes 1])
  case (1 loop s r)
  show ?case
  proof
    assume cv: "chainOk rules s \<and> validPos s"
    have na: "needsAdvance (popRule s) = needsAdvance s" by (simp add: popRule_def split: list.splits)
    show "\<exists>s'. r = Inr s' \<and> chainOk rules s' \<and> validPos s' \<and> needsAdvance s' = needsAdvance s"
    proof (cases "stops s")
      case True
      with 1(2) have "r = Inr s"
        by (auto simp: stops_def current_def split: option.splits parse_rule.splits if_splits)
      with cv show ?thesis by simp
    next
      case False
      then have rn: "rule s \<noteq> None" by (simp add: stops_def)
      with cv have ne: "prevState s \<noteq> []" using chainOk_prev_nonempty by blast
      from False cv 1(2) have "loop (popRule s) = Some r"
        by (auto simp: stops_def validPos_def current_def split: option.splits parse_rule.splits if_splits)
      from 1(1)[OF this] chainOk_popRule[OF _ ne] cv na show ?thesis by auto
    qed
  qed
qed

lemma unsuccessful_safe:
  assumes "unsuccessful s = Some r" and "chainOk rules s" and "validPos s"
  shows "\<exists>s'. r = Inr s' \<and> chainOk rules s' \<and> validPos s' \<and> needsAdvance s' = needsAdvance s"
proof -
  from assms(1) obtain u where u: "unwind s = Some u"
    by (auto simp: unsuccessful_def split: option.splits)
  from unwind_safe_aux[OF u, of rules] assms(2,3) obtain s1 where
    s1: "u = Inr s1" "chainOk rules s1" "validPos s1" "needsAdvance s1 = needsAdvance s" by blast
  show ?thesis
  proof (cases "rule s1 = None")
    case True
    with assms(1) u s1 show ?thesis by (auto simp: unsuccessful_def)
  next
    case False
    with assms(1) u s1 have "advanceRule s1 False = Some r" by (simp add: unsuccessful_def)
    from advanceRule_safe[OF this s1(2,3)] s1(4) show ?thesis by simp
  qed
qed

lemma pushRule_safe:
  assumes "chainOk rules s" and "validPos s" and "rules n = Some r" and "r \<noteq> Seq []"
  shows "\<exists>s'. pushRule rules s n = Inr s' \<and> chainOk rules s' \<and> validPos s' \<and>
           needsAdvance s' = needsAdvance s"
  using assms
  by (auto simp: pushRule_def chainOk_def clone_def ruleOk_def validPos_def)

lemma pushRule_Special_safe:
  assumes "chainOk rules s" and "validPos s" and "\<not> needsAdvance s"
  shows "safeInv rules (s\<lparr> prevState := clone s # prevState s, kind := k, name := None,
              type := None, rule := Some (Seq []), step := 0, needsSeperator := False \<rparr>)"
  using assms
  by (auto simp: safeInv_def chainOk_def clone_def ruleOk_def validPos_def)

lemma core_names: "ofRule e = Some (Ref m) \<Longrightarrow> m \<in> names e"
  by (cases e) auto

lemma separator_names: "separator e = Some s \<Longrightarrow> names s \<subseteq> names e"
  by (cases e) auto

lemma unwrap_names:
  "(case ofRule x of None \<Rightarrow> Some x | Some r \<Rightarrow> Some r) = Some (Ref m) \<Longrightarrow> m \<in> names x"
  by (cases x) auto

lemma expected_element_names:
  assumes "(case (if b then Option.bind (Some e0) separator else Some e0) of
              None \<Rightarrow> None
            | Some x \<Rightarrow> (case ofRule x of Some r \<Rightarrow> Some r | None \<Rightarrow> Some x)) = Some (Ref m)"
  shows "m \<in> names e0"
proof (cases b)
  case False
  with assms show ?thesis by (auto intro: unwrap_names)
next
  case True
  with assms obtain x where x: "separator e0 = Some x"
    "(case ofRule x of Some r \<Rightarrow> Some r | None \<Rightarrow> Some x) = Some (Ref m)"
    by (auto split: option.splits)
  from x(2) have "m \<in> names x" by (cases x) auto
  with separator_names[OF x(1)] show ?thesis by blast
qed

lemma ruleOk_not_inherited:
  "ruleOk rules s \<Longrightarrow> namesKnown rules \<Longrightarrow> rule s \<noteq> Some (Inherited k)"
proof
  assume a: "ruleOk rules s" "namesKnown rules" "rule s = Some (Inherited k)"
  then obtain n where "rules n = Some (Inherited k)" by (auto simp: ruleOk_def)
  with a(2) show False by (auto simp: namesKnown_def dest!: spec[of _ n])
qed

lemma expected_no_throw:
  assumes "ruleOk rules s" and "namesKnown rules"
  shows "\<exists>x. expected token stream s = Inr x"
  using ruleOk_not_inherited[OF assms]
  by (auto simp: expected_def element_def Let_def split: option.splits parse_rule.splits)

lemma expected_Ref_names:
  assumes "expected token stream s = Inr (Some (Ref m))" and "\<forall>k. rule s \<noteq> Some (Inherited k)"
  shows "(\<exists>es e. rule s = Some (Seq es) \<and> e \<in> set es \<and> m \<in> names e) \<or>
         (\<exists>f e. rule s = Some (Fork f) \<and> f token stream = Some e \<and> m \<in> names e)"
proof (cases "rule s")
  case None
  with assms show ?thesis by (auto simp: expected_def element_def split: if_splits)
next
  case (Some r)
  show ?thesis
  proof (cases r)
    case (Seq es)
    with Some assms have i: "step s < length es"
      by (auto simp: expected_def element_def split: if_splits)
    with Some Seq assms have "m \<in> names (es ! step s)"
      by (intro expected_element_names[of "needsSeperator s"])
         (simp add: expected_def element_def Let_def)
    with Some Seq i nth_mem[OF i] show ?thesis by blast
  next
    case (Fork f)
    with Some assms obtain e0 where e0: "f token stream = Some e0"
      by (cases "f token stream") (auto simp: expected_def element_def Let_def split: if_splits)
    with Some Fork assms have "m \<in> names e0"
      by (intro expected_element_names[of "needsSeperator s"])
         (auto simp: expected_def element_def Let_def split: if_splits)
    with Some Fork e0 show ?thesis by auto
  next
    case (Inherited k)
    with Some assms(2) show ?thesis by simp
  qed
qed

lemma expected_Ref_known:
  assumes "expected token stream s = Inr (Some (Ref m))" and "namesKnown rules"
    and "noEmptyRule rules" and "ruleOk rules s"
  shows "\<exists>r. rules m = Some r \<and> r \<noteq> Seq []"
proof -
  from expected_Some_rule[OF assms(1)] assms(4) obtain n r where n: "rule s = Some r" "rules n = Some r"
    by (auto simp: ruleOk_def)
  have ni: "\<forall>k. rule s \<noteq> Some (Inherited k)"
    using ruleOk_not_inherited[OF assms(4,2)] by blast
  from expected_Ref_names[OF assms(1) ni] n assms(2) have "rules m \<noteq> None"
    by (auto simp: namesKnown_def split: option.splits parse_rule.splits dest!: spec[of _ n])
  with assms(3) show ?thesis by (auto simp: noEmptyRule_def)
qed

lemma setAnnots_Nil2 [simp]: "setAnnots as [] = []"
  by (cases as) simp_all

lemma setAnnots_fields:
  "map rule (setAnnots as fs) = map rule fs \<and> map step (setAnnots as fs) = map step fs"
  by (induction as fs rule: setAnnots.induct) simp_all

lemma setAnnots_preserves:
  "(\<forall>p \<in> set fs. ruleOk rules p \<and> validPos p) \<Longrightarrow>
   (\<forall>p \<in> set (setAnnots as fs). ruleOk rules p \<and> validPos p)"
  by (induction as fs rule: setAnnots.induct) (auto simp: ruleOk_def validPos_def)

lemma setAnnots_last:
  "fs \<noteq> [] \<Longrightarrow> setAnnots as fs \<noteq> [] \<and> rule (last (setAnnots as fs)) = rule (last fs)"
  by (induction as fs rule: setAnnots.induct) (auto split: if_splits)

lemma setAnnots_Nil: "setAnnots as fs = [] \<longleftrightarrow> fs = []"
  by (induction as fs rule: setAnnots.induct) auto

lemma runUpdate_chainOk: "chainOk rules s \<Longrightarrow> chainOk rules (runUpdate u token s)"
proof -
  assume c: "chainOk rules s"
  have "chainOk rules ((setAnnot a s)\<lparr> prevState := setAnnots as (prevState s) \<rparr>)" for a as
  proof (cases "prevState s = []")
    case True
    with c show ?thesis
      by (auto simp: chainOk_def clone_def ruleOk_def setAnnots_Nil)
  next
    case False
    with c setAnnots_last[OF False, of as] setAnnots_preserves[of "prevState s" rules as]
    show ?thesis
      by (auto simp: chainOk_def clone_def ruleOk_def)
  qed
  with c show ?thesis by (auto simp: runUpdate_def split: option.splits list.splits)
qed

lemma runUpdate_validPos: "validPos s \<Longrightarrow> validPos (runUpdate u token s)"
  by (simp add: validPos_def)

lemma matchStep_safe:
  assumes "matchStep rules token stream s = Some r" and "chainOk rules s" and "validPos s"
    and "namesKnown rules" and "noEmptyRule rules"
  shows "(\<exists>s'. r = Inr (Again s') \<and> chainOk rules s' \<and> validPos s') \<or>
         (\<exists>sty s'. r = Inr (Return sty s') \<and> chainOk rules s' \<and> validPos s')"
proof -
  have failed: ?thesis
    if "(case unsuccessful s of None \<Rightarrow> None | Some (Inl e) \<Rightarrow> Some (Inl e)
          | Some (Inr s') \<Rightarrow> Some (Inr (Again s'))) = Some r"
  proof -
    from that obtain u where u: "unsuccessful s = Some u" by (auto split: option.splits)
    from unsuccessful_safe[OF u assms(2,3)] that u show ?thesis by auto
  qed
  from assms(2) have ro: "ruleOk rules s" by (simp add: chainOk_def)
  from expected_no_throw[OF ro assms(4)] obtain x where x: "expected token stream s = Inr x"
    by blast
  show ?thesis
  proof (cases x)
    case None
    with x assms(1) failed show ?thesis by (simp add: matchStep_def Let_def)
  next
    case (Some e)
    show ?thesis
    proof (cases e)
      case (Ref m)
      with x Some have ex: "expected token stream s = Inr (Some (Ref m))" by simp
      from expected_Ref_known[OF ex assms(4,5) ro] obtain q where
        q: "rules m = Some q" "q \<noteq> Seq []"
        by blast
      from pushRule_safe[OF assms(2,3) q] ex assms(1) show ?thesis
        by (auto simp: matchStep_def Let_def)
    next
      case (Terminal match update style)
      with x Some have ex: "expected token stream s = Inr (Some (Terminal match update style))"
        by simp
      show ?thesis
      proof (cases "match token")
        case False
        with ex assms(1) failed show ?thesis by (simp add: matchStep_def Let_def)
      next
        case True
        let ?u = "runUpdate update token s"
        have cu: "chainOk rules ?u" and vu: "validPos ?u"
          using assms(2,3) by (simp_all add: runUpdate_chainOk runUpdate_validPos)
        show ?thesis
        proof (cases "tkind token = ''Punctuation''")
          case False
          with assms(1) cu vu show ?thesis
            by (auto simp: matchStep_Terminal[OF ex True] chainOk_top_update validPos_def)
        next
          case p: True
          with assms(1) obtain a where a: "advanceRule ?u True = Some a"
            by (auto simp: matchStep_Terminal[OF ex True] split: option.splits)
          from advanceRule_safe[OF a cu vu] a p assms(1) show ?thesis
            by (auto simp: matchStep_Terminal[OF ex True])
        qed
      qed
    next
      case (Opt y)
      with x Some assms(1) failed show ?thesis by (simp add: matchStep_def Let_def)
    next
      case (ListOf y sep)
      with x Some assms(1) failed show ?thesis by (simp add: matchStep_def Let_def)
    qed
  qed
qed

lemma matchLoop_safe_aux:
  "matchLoop rules token stream s = Some r \<Longrightarrow>
     chainOk rules s \<and> validPos s \<and> namesKnown rules \<and> noEmptyRule rules \<longrightarrow>
     (\<exists>sty s'. r = Inr (sty, s') \<and> chainOk rules s' \<and> validPos s')"
proof (induction rule: matchLoop.raw_induct[rotated 1, consumes 1])
  case (1 loop rules token stream s r)
  show ?case
  proof
    assume a: "chainOk rules s \<and> validPos s \<and> namesKnown rules \<and> noEmptyRule rules"
    show "\<exists>sty s'. r = Inr (sty, s') \<and> chainOk rules s' \<and> validPos s'"
    proof (cases "rule s = None")
      case True
      with 1(2) a show ?thesis by auto
    next
      case False
      with 1(2) obtain m where m: "matchStep rules token stream s = Some m"
        by (auto split: option.splits)
      from matchStep_safe[OF m] a consider
        (again) s' where "m = Inr (Again s')" "chainOk rules s'" "validPos s'"
        | (ret) sty s' where "m = Inr (Return sty s')" "chainOk rules s'" "validPos s'"
        by blast
      then show ?thesis
      proof cases
        case again
        with 1(2) False m have "loop rules token stream s' = Some r" by simp
        from 1(1)[OF this] again a show ?thesis by simp
      next
        case ret
        with 1(2) False m show ?thesis by auto
      qed
    qed
  qed
qed

lemma restore_safe:
  assumes "restore s = Some r" and "safeInv rules s" and "namesKnown rules"
  shows "\<exists>s'. r = Inr s' \<and> chainOk rules s' \<and> validPos s' \<and> \<not> needsAdvance s'"
proof (cases "rule s = Some (Seq [])")
  case True
  with assms(2) have c: "chainOk rules s" and na: "\<not> needsAdvance s"
    by (auto simp: safeInv_def validPos_def)
  from True c have "prevState s \<noteq> []" by (simp add: chainOk_prev_nonempty)
  from chainOk_popRule[OF c this] True assms(1) na show ?thesis
    by (auto simp: restore_def popRule_def split: list.splits)
next
  case False
  with assms(2) have c: "chainOk rules s" and v: "validPos s" by (auto simp: safeInv_def)
  from c have "ruleOk rules s" by (simp add: chainOk_def)
  from ruleOk_not_inherited[OF this assms(3)] False have ne: "\<not> emptyRule s"
    by (auto simp: emptyRule_iff)
  show ?thesis
  proof (cases "needsAdvance s")
    case True
    with ne assms(1) have a: "advanceRule (s\<lparr> needsAdvance := False \<rparr>) True = Some r"
      by (simp add: restore_def)
    have "chainOk rules (s\<lparr> needsAdvance := False \<rparr>)" "validPos (s\<lparr> needsAdvance := False \<rparr>)"
      using c v by (simp_all add: chainOk_top_update validPos_def)
    from advanceRule_safe[OF a this] show ?thesis by simp
  next
    case na: False
    with ne assms(1) c v show ?thesis by (auto simp: restore_def)
  qed
qed

lemma rememberIndent_safe:
  "chainOk rules s \<Longrightarrow> validPos s \<Longrightarrow>
     chainOk rules (rememberIndent opts stream s) \<and> validPos (rememberIndent opts stream s) \<and>
     needsAdvance (rememberIndent opts stream s) = needsAdvance s"
  by (simp add: rememberIndent_def Let_def chainOk_top_update validPos_def)

lemma adjustLevels_safe:
  "chainOk rules s \<Longrightarrow> validPos s \<Longrightarrow>
     chainOk rules (adjustLevels token s) \<and> validPos (adjustLevels token s)"
  by (simp add: adjustLevels_def Let_def chainOk_top_update validPos_def)

lemma getToken_safe:
  assumes "getToken opts stream s = Some r" and "safeInv (parseRules opts) s"
    and "namesKnown (parseRules opts)" and "noEmptyRule (parseRules opts)"
  shows "\<exists>sty stream' s'. r = Inr (sty, stream', s') \<and> safeInv (parseRules opts) s'"
proof -
  let ?R = "parseRules opts"
  from assms(1) obtain r0 where r0: "restore s = Some r0"
    by (auto simp: getToken_def split: option.splits sum.splits)
  from restore_safe[OF r0 assms(2,3)] obtain s0 where
    s0: "r0 = Inr s0" "chainOk ?R s0" "validPos s0" "\<not> needsAdvance s0" by blast
  let ?b = "rememberIndent opts stream s0"
  from rememberIndent_safe[OF s0(2,3), of opts stream] s0(4)
  have b: "chainOk ?R ?b" "validPos ?b" "\<not> needsAdvance ?b" by simp_all
  then have bi: "safeInv ?R ?b" by (simp add: safeInv_def)
  have sp: "safeInv ?R (?b\<lparr> prevState := clone ?b # prevState ?b, kind := k, name := None,
              type := None, rule := Some (Seq []), step := 0, needsSeperator := False \<rparr>)" for k
    using b by (rule pushRule_Special_safe)
  obtain w stream1 where w: "eatWhitespace opts stream = (w, stream1)" by (cases "eatWhitespace opts stream")
  show ?thesis
  proof (cases w)
    case True
    with assms(1) r0 s0(1) w bi show ?thesis by (auto simp: getToken_def scanToken_def Let_def)
  next
    case False
    obtain tk stream2 where l: "lex (lexRules opts) stream1 = (tk, stream2)"
      by (cases "lex (lexRules opts) stream1")
    show ?thesis
    proof (cases tk)
      case None
      with assms(1) r0 s0(1) w False l sp show ?thesis
        by (auto simp: getToken_def scanToken_def Let_def pushRule_Special)
    next
      case (Some token)
      show ?thesis
      proof (cases "tkind token = ''Comment''")
        case True
        with Some assms(1) r0 s0(1) w False l sp show ?thesis
          by (auto simp: getToken_def scanToken_def Let_def pushRule_Special)
      next
        case nc: False
        with Some assms(1) r0 s0(1) w False l have pt: "parseToken opts token stream2 ?b = Some r"
          by (simp add: getToken_def scanToken_def Let_def)
        then obtain m where m: "matchLoop ?R token stream2 (adjustLevels token ?b) = Some m"
          by (auto simp: parseToken_def Let_def split: option.splits)
        from matchLoop_safe_aux[OF m] adjustLevels_safe[OF b(1,2)] assms(3,4)
        obtain sty s' where s': "m = Inr (sty, s')" "chainOk ?R s'" "validPos s'" by blast
        show ?thesis
        proof (cases sty)
          case None
          with pt m s' sp show ?thesis by (auto simp: parseToken_def Let_def pushRule_Special)
        next
          case (Some style)
          with pt m s' show ?thesis by (auto simp: parseToken_def Let_def safeInv_def)
        qed
      qed
    qed
  qed
qed

lemma startState_safe:
  assumes "startState opts = Inr s" and "noEmptyRule (parseRules opts)"
  shows "safeInv (parseRules opts) s"
proof -
  from assms(1) obtain r where r: "parseRules opts ''Document'' = Some r"
    by (auto simp: startState_def pushRule_def lookupRule_def objectPrototype_def
        split: option.splits)
  with assms(2) have "r \<noteq> Seq []" by (auto simp: noEmptyRule_def)
  with assms(1) r show ?thesis
    by (auto simp: startState_def pushRule_def safeInv_def chainOk_def clone_def ruleOk_def
        validPos_def initialState_def)
qed

lemma reachable_safe:
  assumes "reachable opts s" and "namesKnown (parseRules opts)" and "noEmptyRule (parseRules opts)"
  shows "safeInv (parseRules opts) s"
  using assms
proof (induction rule: reachable.induct)
  case (start state)
  then show ?case by (simp add: startState_safe)
next
  case (token state stream style stream' state')
  from getToken_safe[OF token(2)] token show ?case by auto
qed

text \<open>
  C2, as the claim states it, fails: every name of the table below is known, and
  \<^verbatim>\<open>Invalid\<close> and \<^verbatim>\<open>Comment\<close> are in \<^verbatim>\<open>SpecialParseRules\<close>, but the rule \<^verbatim>\<open>Empty\<close> is the
  empty array. On the start state and the text \<^verbatim>\<open>x\<close>, the loop pushes \<^verbatim>\<open>Empty\<close>, finds no
  element at step 0, and \<^verbatim>\<open>unsuccessful\<close> reads \<^verbatim>\<open>.ofRule\<close> of the undefined element.
\<close>

theorem getToken_empty_rule_counterexample:
  "namesKnown emptyRules \<and> startState emptyOptions = Inr emptyStart \<and>
   reachable emptyOptions emptyStart \<and>
   getToken emptyOptions (streamOf ''x'') emptyStart =
     Some (Inl (TypeError ''Cannot read properties of undefined (reading ofRule)''))"
proof -
  let ?tok = "\<lparr> tkind = ''Name'', tvalue = ''x'' \<rparr>"
  let ?err = "TypeError ''Cannot read properties of undefined (reading ofRule)''"
  have k: "namesKnown emptyRules" by (simp add: namesKnown_def emptyRules_def)
  have s: "startState emptyOptions = Inr emptyStart"
    by (simp add: startState_def emptyOptions_def exampleOptions_def pushRule_def emptyRules_def
        emptyStart_def initialState_def clone_def)
  then have re: "reachable emptyOptions emptyStart" by (rule reachable.start)
  have r: "restore emptyStart = Some (Inr emptyStart)"
    by (simp add: restore_def emptyStart_def initialState_def emptyRules_def)
  have w: "eatWhitespace emptyOptions (streamOf ''x'') = (False, streamOf ''x'')"
    by (simp add: emptyOptions_def exampleOptions_def eatSpaces_def isIgnored_def streamOf_def rest_def)
  have i: "rememberIndent emptyOptions (streamOf ''x'') emptyStart = emptyStart"
    by (simp add: rememberIndent_def sol_def streamOf_def emptyOptions_def exampleOptions_def
        emptyStart_def initialState_def)
  have l: "lex (lexRules emptyOptions) (streamOf ''x'') = (Some ?tok, (streamOf ''x'')\<lparr> pos := 1 \<rparr>)"
    by (simp add: emptyOptions_def exampleOptions_def smatch_def streamOf_def rest_def
        punctPattern_def namePattern_def isLetter_def Let_def)
  have a: "adjustLevels ?tok emptyStart = emptyStart" by (simp add: adjustLevels_def)
  let ?e = "emptyStart\<lparr> prevState := clone emptyStart # prevState emptyStart,
      kind := Some ''Empty'', name := None, type := None, rule := Some (Seq []), step := 0,
      needsSeperator := False \<rparr>"
  have m1: "matchStep emptyRules ?tok stream emptyStart = Some (Inr (Again ?e))" for stream
    by (simp add: matchStep_def expected_def element_def emptyStart_def initialState_def emptyRules_def
        pushRule_def)
  have "unwind ?e = Some (Inl ?err)"
    by (subst unwind.simps) simp
  then have m2: "matchStep emptyRules ?tok stream ?e = Some (Inl ?err)" for stream
    by (simp add: matchStep_def expected_def element_def unsuccessful_def)
  have "rule emptyStart \<noteq> None" by (simp add: emptyStart_def emptyRules_def)
  then have ml: "matchLoop emptyRules ?tok stream emptyStart = Some (Inl ?err)" for stream
    by (simp add: matchLoop_step m1 m2)
  have p: "parseRules emptyOptions = emptyRules" by (simp add: emptyOptions_def)
  have "getToken emptyOptions (streamOf ''x'') emptyStart = Some (Inl ?err)"
    by (simp add: getToken_def scanToken_def r w i l parseToken_def a p ml)
  with k s re show ?thesis by simp
qed

text \<open>
  C2, amended: when every rule name the parse table mentions is in the table and no
  entry of the table is the empty array, \<^verbatim>\<open>getToken\<close> raises no exception on a state
  reachable from \<^verbatim>\<open>startState\<close>, on any stream; and such a state satisfies the
  invariant: every saved frame whose rule is an array has a valid index as its step,
  and so has the current frame unless it is an Invalid or Comment sentinel.
\<close>

theorem getToken_no_exception:
  assumes "namesKnown (parseRules opts)" and "noEmptyRule (parseRules opts)"
    and "reachable opts state"
  shows "getToken opts stream state \<noteq> Some (Inl e) \<and> safeInv (parseRules opts) state"
proof -
  from reachable_safe[OF assms(3,1,2)] have i: "safeInv (parseRules opts) state" .
  have "getToken opts stream state \<noteq> Some (Inl e)"
  proof
    assume "getToken opts stream state = Some (Inl e)"
    from getToken_safe[OF this i assms(1,2)] show False by simp
  qed
  with i show ?thesis by simp
qed

theorem getToken_no_exception_witness:
  "namesKnown exampleRules \<and> noEmptyRule exampleRules \<and> reachable exampleOptions documentState \<and>
   (\<forall>e. getToken exampleOptions (streamOf ''@'') documentState \<noteq> Some (Inl e))"
proof -
  have p: "parseRules exampleOptions = exampleRules" by (simp add: exampleOptions_def)
  have k: "namesKnown exampleRules"
    by (simp add: namesKnown_def exampleRules_def punct_def nameT_def)
  have n: "noEmptyRule exampleRules" by (simp add: noEmptyRule_def exampleRules_def)
  have "startState exampleOptions = Inr documentState"
    by (simp add: startState_def exampleOptions_def pushRule_def documentState_def
        initialState_def clone_def)
  then have r: "reachable exampleOptions documentState" by (rule reachable.start)
  have "getToken exampleOptions (streamOf ''@'') documentState \<noteq> Some (Inl e)" for e
    using getToken_no_exception[of exampleOptions documentState "streamOf ''@''" e] k n r p
    by simp
  with k n r show ?thesis by simp
qed

section \<open>Progress of the stream\<close>

text \<open>
  C1: a call of \<^verbatim>\<open>getToken\<close> does not always move the stream forward. The example
  grammar has no cycle of references (\<^verbatim>\<open>Document\<close> refers to \<^verbatim>\<open>Field\<close>, which refers to
  no rule), and the start state is reachable. On a text that begins with a form feed,
  \<^verbatim>\<open>eatWhitespace\<close> consumes nothing (the form feed is not among the ignored
  characters), no lexical rule matches, and the skip \<^verbatim>\<open>stream.match(/\\S+/)\<close> matches
  nothing either, the form feed being white space for \<^verbatim>\<open>\\S\<close>: the call returns
  \<^verbatim>\<open>invalidchar\<close> with the stream at position 0 as before. The next call pops the Invalid
  sentinel, and returns \<^verbatim>\<open>invalidchar\<close> with the same stream and the same state again.
\<close>

theorem getToken_form_feed_no_progress:
  "references exampleRules ''Document'' = {''Field''} \<and>
   references exampleRules ''Field'' = {} \<and>
   reachable exampleOptions documentState \<and>
   getToken exampleOptions (streamOf [CHR 0x0C]) documentState =
     Some (Inr (''invalidchar'', streamOf [CHR 0x0C], invalidOn documentState)) \<and>
   getToken exampleOptions (streamOf [CHR 0x0C]) (invalidOn documentState) =
     Some (Inr (''invalidchar'', streamOf [CHR 0x0C], invalidOn documentState)) \<and>
   pos (streamOf [CHR 0x0C]) = 0"
proof -
  let ?ff = "streamOf [CHR 0x0C]"
  have g: "references exampleRules ''Document'' = {''Field''}"
    "references exampleRules ''Field'' = {}"
    by (simp_all add: references_def punct_def nameT_def)
  have "startState exampleOptions = Inr documentState"
    by (simp add: startState_def pushRule_installs documentState_def initialState_def clone_def)
  then have re: "reachable exampleOptions documentState" by (rule reachable.start)
  have w: "eatWhitespace exampleOptions ?ff = (False, ?ff)"
    by (simp add: eatSpaces_def isIgnored_def streamOf_def rest_def)
  have i: "rememberIndent exampleOptions ?ff documentState = documentState"
    by (simp add: rememberIndent_def sol_def streamOf_def documentState_def initialState_def)
  have l: "lex (lexRules exampleOptions) ?ff = (None, ?ff)"
    by (simp add: smatch_def streamOf_def rest_def punctPattern_def namePattern_def
        commentPattern_def isLetter_def Let_def)
  have n: "smatch nonSpaces ?ff = (None, ?ff)"
    by (simp add: smatch_def nonSpaces_def isSpace_def streamOf_def rest_def)
  have s: "scanToken exampleOptions ?ff documentState =
      Some (Inr (''invalidchar'', ?ff, invalidOn documentState))"
    using w i l n by (simp add: scanToken_def pushRule_Special invalidOn_def)
  have r1: "restore documentState = Some (Inr documentState)"
    by (simp add: restore_def documentState_def initialState_def)
  have r2: "restore (invalidOn documentState) = Some (Inr documentState)"
    by (simp add: restore_def invalidOn_def popRule_def clone_def documentState_def
        initialState_def)
  from s r1 r2 have "getToken exampleOptions ?ff documentState =
      Some (Inr (''invalidchar'', ?ff, invalidOn documentState))"
    and "getToken exampleOptions ?ff (invalidOn documentState) =
      Some (Inr (''invalidchar'', ?ff, invalidOn documentState))"
    by (simp_all add: getToken_def)
  with g re show ?thesis by (simp add: streamOf_def)
qed

end
